theory Spec2Isabelle
  imports Main "HOL-Library.AList"
begin

section \<open>The property graph read by the query\<close>

text \<open>
  \<^verbatim>\<open>getUserEnrolments\<close> (src/domain/services/get-user-enrolments.ts) sends one Cypher
  query to the store and post-processes the first record. The store is a property graph:
  nodes carry labels and properties, relationships carry a type. Property values are kept
  as text. The order of \<open>g_nodes\<close> and \<open>g_edges\<close> stands for the order in which the store
  returns matches.
\<close>

datatype rel =
  HAS_ENROLMENT | FOR_COURSE | HAS_MODULE | HAS_LESSON | NEXT_LESSON
  | HAS_QUESTION | COMPLETED_MODULE | COMPLETED_LESSON

record node =
  nid :: nat
  n_labels :: "string list"
  n_props :: "(string \<times> string) list"

record graph =
  g_nodes :: "node list"
  g_edges :: "(nat \<times> rel \<times> nat) list"

text \<open>\<open>n.key\<close>: a missing property is \<open>null\<close>, here \<open>None\<close>.\<close>

definition property :: "node \<Rightarrow> string \<Rightarrow> string option" where
  "property n k = map_of (n_props n) k"

text \<open>Cypher's \<open>+\<close> on strings: \<open>null\<close> as soon as one operand is \<open>null\<close>.\<close>

fun cat :: "string option \<Rightarrow> string option \<Rightarrow> string option" where
  "cat (Some a) (Some b) = Some (a @ b)"
| "cat _ _ = None"

definition node_at :: "graph \<Rightarrow> nat \<Rightarrow> node option" where
  "node_at g i = find (\<lambda>n. nid n = i) (g_nodes g)"

text \<open>\<open>(a)-[:r]->(b)\<close> with \<open>a\<close> bound: one match per relationship.\<close>

definition out_nodes :: "graph \<Rightarrow> node \<Rightarrow> rel \<Rightarrow> node list" where
  "out_nodes g a r =
     List.map_filter (\<lambda>(s, r', t). if s = nid a \<and> r' = r then node_at g t else None) (g_edges g)"

text \<open>\<open>(a)<-[:r]-(b)\<close> with \<open>a\<close> bound.\<close>

definition in_nodes :: "graph \<Rightarrow> node \<Rightarrow> rel \<Rightarrow> node list" where
  "in_nodes g a r =
     List.map_filter (\<lambda>(s, r', t). if t = nid a \<and> r' = r then node_at g s else None) (g_edges g)"

text \<open>\<open>exists((e)-[:r]->(x))\<close>; a pattern through a \<open>null\<close> node matches nothing.\<close>

definition exists_rel :: "graph \<Rightarrow> node option \<Rightarrow> rel \<Rightarrow> node \<Rightarrow> bool" where
  "exists_rel g e r x =
     (case e of None \<Rightarrow> False | Some e' \<Rightarrow> (nid e', r, nid x) \<in> set (g_edges g))"

text \<open>A map projection \<open>n { .*, k1: ..., k2: ... }\<close>: the explicit keys replace properties
  of the same name.\<close>

definition drop_keys :: "string list \<Rightarrow> (string \<times> string) list \<Rightarrow> (string \<times> string) list" where
  "drop_keys ks ps = filter (\<lambda>kv. fst kv \<notin> set ks) ps"


section \<open>The content tree\<close>

record user =
  u_id :: "string option"
  u_name :: "string option"
  u_givenName :: "string option"

record stub =
  s_slug :: "string option"
  s_title :: "string option"
  s_link :: "string option"

record question =
  q_id :: "string option"
  q_slug :: "string option"

record lesson =
  l_props :: "(string \<times> string) list"
  l_completed :: bool
  l_link :: "string option"
  l_previous :: "stub option"
  l_next :: "stub option"
  l_questions :: "question list"

record module =
  m_props :: "(string \<times> string) list"
  m_link :: "string option"
  m_completed :: bool
  m_lessons :: "lesson list"

record course =
  c_props :: "(string \<times> string) list"
  c_createdAt :: "string option"
  c_completed :: "bool option"
  c_completedAt :: "string option"
  c_modules :: "module list"

text \<open>\<open>'/courses/'+ c.slug +'/'+ m.slug\<close>\<close>

definition module_link :: "node \<Rightarrow> node \<Rightarrow> string option" where
  "module_link c m = cat (cat (cat (Some ''/courses/'') (property c ''slug'')) (Some ''/'')) (property m ''slug'')"

text \<open>\<open>'/courses/'+ c.slug +'/'+ m.slug +'/'+ l.slug\<close>\<close>

definition lesson_link :: "node \<Rightarrow> node \<Rightarrow> node \<Rightarrow> string option" where
  "lesson_link c m l = cat (cat (module_link c m) (Some ''/'')) (property l ''slug'')"

text \<open>\<open>x { .slug, .title, link: '/courses/'+ c.slug + '/'+ xm.slug +'/'+ x.slug }\<close>\<close>

definition neighbour :: "node \<Rightarrow> node \<Rightarrow> node \<Rightarrow> stub" where
  "neighbour c xm x =
     \<lparr>s_slug = property x ''slug'', s_title = property x ''title'', s_link = lesson_link c xm x\<rparr>"

text \<open>\<open>[ (l)<-[:NEXT_LESSON]-(prev)<-[:HAS_LESSON]-(pm) | prev {...} ]\<close>\<close>

definition previous_matches :: "graph \<Rightarrow> node \<Rightarrow> node \<Rightarrow> stub list" where
  "previous_matches g c l =
     concat (map (\<lambda>prev. map (\<lambda>pm. neighbour c pm prev) (in_nodes g prev HAS_LESSON))
                 (in_nodes g l NEXT_LESSON))"

text \<open>\<open>[ (l)-[:NEXT_LESSON]->(next)<-[:HAS_LESSON]-(nm) | next {...} ]\<close>\<close>

definition next_matches :: "graph \<Rightarrow> node \<Rightarrow> node \<Rightarrow> stub list" where
  "next_matches g c l =
     concat (map (\<lambda>nxt. map (\<lambda>nm. neighbour c nm nxt) (in_nodes g nxt HAS_LESSON))
                 (out_nodes g l NEXT_LESSON))"

text \<open>\<open>list[0]\<close> in Cypher: \<open>null\<close> on the empty list.\<close>

fun first_or_null :: "'a list \<Rightarrow> 'a option" where
  "first_or_null [] = None"
| "first_or_null (x # _) = Some x"

definition question_proj :: "node \<Rightarrow> question" where
  "question_proj q = \<lparr>q_id = property q ''id'', q_slug = property q ''slug''\<rparr>"

definition lesson_proj :: "graph \<Rightarrow> node \<Rightarrow> node option \<Rightarrow> node \<Rightarrow> node \<Rightarrow> lesson" where
  "lesson_proj g c e m l =
     \<lparr>l_props = drop_keys [''completed'', ''link'', ''previous'', ''next'', ''questions''] (n_props l),
      l_completed = exists_rel g e COMPLETED_LESSON l,
      l_link = lesson_link c m l,
      l_previous = first_or_null (previous_matches g c l),
      l_next = first_or_null (next_matches g c l),
      l_questions = map question_proj (out_nodes g l HAS_QUESTION)\<rparr>"

definition module_proj :: "graph \<Rightarrow> node \<Rightarrow> node option \<Rightarrow> node \<Rightarrow> module" where
  "module_proj g c e m =
     \<lparr>m_props = drop_keys [''link'', ''completed'', ''lessons''] (n_props m),
      m_link = module_link c m,
      m_completed = exists_rel g e COMPLETED_MODULE m,
      m_lessons = map (lesson_proj g c e m) (out_nodes g m HAS_LESSON)\<rparr>"

text \<open>\<open>e:CompletedEnrolment\<close> and \<open>e.key\<close> are \<open>null\<close> when \<open>e\<close> is.\<close>

definition is_completed :: "node \<Rightarrow> bool" where
  "is_completed e = (''CompletedEnrolment'' \<in> set (n_labels e))"

definition course_proj :: "graph \<Rightarrow> node \<Rightarrow> node option \<Rightarrow> course" where
  "course_proj g c e =
     \<lparr>c_props = drop_keys [''createdAt'', ''completed'', ''completedAt'', ''modules''] (n_props c),
      c_createdAt = Option.bind e (\<lambda>e'. property e' ''createdAt''),
      c_completed = map_option is_completed e,
      c_completedAt = Option.bind e (\<lambda>e'. property e' ''completedAt''),
      c_modules = map (module_proj g c e) (out_nodes g c HAS_MODULE)\<rparr>"

definition user_proj :: "node \<Rightarrow> user" where
  "user_proj u = \<lparr>u_id = property u ''id'', u_name = property u ''name'', u_givenName = property u ''givenName''\<rparr>"


section \<open>Status labels\<close>

text \<open>Modelled from the spec: the three constants of \<^verbatim>\<open>domain/model/enrolment\<close>, which is
  not among the sources; the spec gives the labels \<open>available\<close>, \<open>enrolled\<close> and
  \<open>completed\<close>.\<close>

definition STATUS_AVAILABLE :: string where "STATUS_AVAILABLE = ''available''"
definition STATUS_ENROLLED :: string where "STATUS_ENROLLED = ''enrolled''"
definition STATUS_COMPLETED :: string where "STATUS_COMPLETED = ''completed''"

text \<open>\<open>CASE WHEN e IS NULL THEN available WHEN e:CompletedEnrolment THEN completed ELSE enrolled END\<close>\<close>

definition status_of :: "node option \<Rightarrow> string" where
  "status_of e =
     (case e of
        None \<Rightarrow> STATUS_AVAILABLE
      | Some e' \<Rightarrow> if is_completed e' then STATUS_COMPLETED else STATUS_ENROLLED)"


section \<open>The query\<close>

text \<open>\<open>MATCH (u:User {id: $id})\<close>\<close>

definition match_users :: "graph \<Rightarrow> string \<Rightarrow> node list" where
  "match_users g uid = filter (\<lambda>n. ''User'' \<in> set (n_labels n) \<and> property n ''id'' = Some uid) (g_nodes g)"

text \<open>\<open>MATCH (c:Course)\<close>\<close>

definition match_courses :: "graph \<Rightarrow> node list" where
  "match_courses g = filter (\<lambda>n. ''Course'' \<in> set (n_labels n)) (g_nodes g)"

text \<open>\<open>(u)-[:HAS_ENROLMENT]->(e)-[:FOR_COURSE]->(c)\<close> with \<open>u\<close> and \<open>c\<close> bound.\<close>

definition enrolment_matches :: "graph \<Rightarrow> node \<Rightarrow> node \<Rightarrow> node list" where
  "enrolment_matches g u c =
     concat (map (\<lambda>e. map (\<lambda>_. e) (filter (\<lambda>c'. nid c' = nid c) (out_nodes g e FOR_COURSE)))
                 (out_nodes g u HAS_ENROLMENT))"

text \<open>\<open>OPTIONAL MATCH\<close>: one row with \<open>e = null\<close> when the pattern has no match.\<close>

definition optional_enrolment :: "graph \<Rightarrow> node \<Rightarrow> node \<Rightarrow> node option list" where
  "optional_enrolment g u c =
     (case enrolment_matches g u c of [] \<Rightarrow> [None] | es \<Rightarrow> map Some es)"

definition matched_rows :: "graph \<Rightarrow> string \<Rightarrow> (node \<times> node \<times> node option) list" where
  "matched_rows g uid =
     concat (map (\<lambda>u. concat (map (\<lambda>c. map (\<lambda>e. (u, c, e)) (optional_enrolment g u c))
                                   (match_courses g)))
                 (match_users g uid))"

text \<open>The first \<open>WITH\<close>: \<open>user\<close>, \<open>course\<close> and \<open>status\<close> of a row.\<close>

definition project_row :: "graph \<Rightarrow> node \<times> node \<times> node option \<Rightarrow> user \<times> string \<times> course" where
  "project_row g row = (case row of (u, c, e) \<Rightarrow> (user_proj u, status_of e, course_proj g c e))"

text \<open>Grouping keys of an aggregation, in the order of their first row.\<close>

fun first_seen :: "'a list \<Rightarrow> 'a list" where
  "first_seen [] = []"
| "first_seen (x # xs) = x # removeAll x (first_seen xs)"

text \<open>\<open>WITH key, collect(value)\<close>: one row per distinct key, with the values of its rows.\<close>

definition collect_by :: "('k \<times> 'v) list \<Rightarrow> ('k \<times> 'v list) list" where
  "collect_by kvs =
     map (\<lambda>k. (k, map snd (filter (\<lambda>kv. fst kv = k) kvs))) (first_seen (map fst kvs))"

text \<open>\<open>apoc.map.fromPairs\<close>: a later pair replaces an earlier one with the same key.\<close>

definition fromPairs :: "(string \<times> 'v) list \<Rightarrow> (string \<times> 'v) list" where
  "fromPairs pairs = fold (\<lambda>kv m. AList.update (fst kv) (snd kv) m) pairs []"

text \<open>
  \<open>WITH user, status, collect(course) AS courses\<close>,
  \<open>WITH user, collect([status, courses]) AS pairs\<close>,
  \<open>RETURN user, apoc.map.fromPairs(pairs) AS enrolments\<close>.
\<close>

definition by_status :: "(user \<times> string \<times> course) list \<Rightarrow> ((user \<times> string) \<times> course list) list" where
  "by_status rows = collect_by (map (\<lambda>(u, s, c). ((u, s), c)) rows)"

definition by_user :: "((user \<times> string) \<times> course list) list \<Rightarrow> (user \<times> (string \<times> course list) list) list" where
  "by_user groups = collect_by (map (\<lambda>((u, s), cs). (u, (s, cs))) groups)"

definition records :: "graph \<Rightarrow> string \<Rightarrow> (user \<times> (string \<times> course list) list) list" where
  "records g uid =
     map (\<lambda>(u, pairs). (u, fromPairs pairs))
         (by_user (by_status (map (project_row g) (matched_rows g uid))))"


section \<open>The order resolver\<close>

text \<open>Modelled from the spec: the fault that \<^verbatim>\<open>sortCourse\<close> (\<^verbatim>\<open>utils\<close>, not among the
  sources) reports for an inconsistent ordering relation (spec section 7): a data-integrity
  error that names the course, with the reason: zero chain heads, several chain heads, a
  cycle met during the chain walk, or a successor that is no lesson of the course.\<close>

datatype integrity = NoChainHead | MultipleChainHeads | CycleDetected | MissingLesson

datatype fault = DataIntegrity "string option" integrity

text \<open>Modelled from the spec: step 1 of the order resolver (spec section 4.2), the lessons
  of all modules in one list, each with a back-reference to its owning module (the module's
  position in the course).\<close>

definition flatten :: "course \<Rightarrow> (nat \<times> lesson) list" where
  "flatten c =
     concat (map (\<lambda>(i, m). map (\<lambda>l. (i, l)) (m_lessons m)) (enumerate 0 (c_modules c)))"

abbreviation link_of :: "nat \<times> lesson \<Rightarrow> string option" where
  "link_of p \<equiv> l_link (snd p)"

text \<open>Modelled from the spec: step 3 of the order resolver, the walk from the chain head
  along the \<open>next\<close> stubs. A stub names its lesson by its link; \<open>seen\<close> holds the links
  visited so far, and meeting one of them again is the cycle of spec section 7.\<close>

function walk :: "(nat \<times> lesson) list \<Rightarrow> string option list \<Rightarrow> nat \<times> lesson
    \<Rightarrow> integrity + (nat \<times> lesson) list" where
  "walk flat seen cur =
     (case l_next (snd cur) of
        None \<Rightarrow> Inr [cur]
      | Some s \<Rightarrow>
          if s_link s \<in> set seen then Inl CycleDetected
          else (case find (\<lambda>p. link_of p = s_link s) flat of
                  None \<Rightarrow> Inl MissingLesson
                | Some nxt \<Rightarrow>
                    (case walk flat (s_link s # seen) nxt of
                       Inl r \<Rightarrow> Inl r
                     | Inr rest \<Rightarrow> Inr (cur # rest))))"
  by pat_completeness auto
termination
proof (relation "measure (\<lambda>(flat, seen, cur). card (set (map link_of flat) - set seen))")
  show "wf (measure (\<lambda>(flat, seen, cur). card (set (map link_of flat) - set seen)))"
    by simp
next
  fix flat :: "(nat \<times> lesson) list" and seen cur nxt and s :: stub
  assume new: "s_link s \<notin> set seen"
    and found: "find (\<lambda>p. link_of p = s_link s) flat = Some nxt"
  from found obtain i where "i < length flat" and "link_of (flat ! i) = s_link s"
    by (auto simp: find_Some_iff)
  then have "s_link s \<in> set (map link_of flat)"
    by (metis length_map nth_map nth_mem)
  with new have "set (map link_of flat) - set (s_link s # seen) \<subset> set (map link_of flat) - set seen"
    by auto
  then have "card (set (map link_of flat) - set (s_link s # seen)) < card (set (map link_of flat) - set seen)"
    by (intro psubset_card_mono) simp_all
  then show "((flat, s_link s # seen, nxt), (flat, seen, cur))
      \<in> measure (\<lambda>(flat, seen, cur). card (set (map link_of flat) - set seen))"
    by simp
qed

declare walk.simps [simp del]

text \<open>Modelled from the spec: step 4, the module order. A module stands where its
  first-visited lesson stands; the modules without a visited lesson follow, in their
  original relative order.\<close>

definition module_order :: "nat \<Rightarrow> (nat \<times> lesson) list \<Rightarrow> nat list" where
  "module_order n ord =
     first_seen (map fst ord) @ filter (\<lambda>i. i \<notin> set (map fst ord)) [0..<n]"

text \<open>Modelled from the spec: step 5, every module gets the lessons of the walk that
  belong to it, in the order of the walk, and the modules are put in module order.\<close>

definition reassign :: "module list \<Rightarrow> (nat \<times> lesson) list \<Rightarrow> module list" where
  "reassign ms ord =
     map (\<lambda>i. (ms ! i)\<lparr>m_lessons := map snd (filter (\<lambda>p. fst p = i) ord)\<rparr>)
         (module_order (length ms) ord)"

definition course_slug :: "course \<Rightarrow> string option" where
  "course_slug c = map_of (c_props c) ''slug''"

text \<open>Modelled from the spec: \<^verbatim>\<open>sortCourse\<close>, the order resolver of spec section 4.2.
  A course without lessons is returned unchanged; step 2 wants exactly one lesson without
  \<open>previous\<close>.\<close>

definition sortCourse :: "course \<Rightarrow> fault + course" where
  "sortCourse c =
     (let flat = flatten c in
      if flat = [] then Inr c
      else (case filter (\<lambda>p. l_previous (snd p) = None) flat of
              [] \<Rightarrow> Inl (DataIntegrity (course_slug c) NoChainHead)
            | [h] \<Rightarrow>
                (case walk flat [link_of h] h of
                   Inl r \<Rightarrow> Inl (DataIntegrity (course_slug c) r)
                 | Inr ord \<Rightarrow> Inr (c\<lparr>c_modules := reassign (c_modules c) ord\<rparr>))
            | _ \<Rightarrow> Inl (DataIntegrity (course_slug c) MultipleChainHeads)))"


section \<open>getUserEnrolments\<close>

text \<open>\<open>for (let course of enrolments[key]) sortCourse(course)\<close>: a fault raised by
  \<^verbatim>\<open>sortCourse\<close> is not caught, so the first one ends the loop.\<close>

fun sort_each :: "course list \<Rightarrow> fault + course list" where
  "sort_each [] = Inr []"
| "sort_each (c # cs) =
     (case sortCourse c of
        Inl f \<Rightarrow> Inl f
      | Inr c' \<Rightarrow> (case sort_each cs of Inl f \<Rightarrow> Inl f | Inr cs' \<Rightarrow> Inr (c' # cs')))"

text \<open>\<open>for (let key in enrolments)\<close>\<close>

fun sort_all :: "(string \<times> course list) list \<Rightarrow> fault + (string \<times> course list) list" where
  "sort_all [] = Inr []"
| "sort_all ((k, cs) # rest) =
     (case sort_each cs of
        Inl f \<Rightarrow> Inl f
      | Inr cs' \<Rightarrow> (case sort_all rest of Inl f \<Rightarrow> Inl f | Inr rest' \<Rightarrow> Inr ((k, cs') # rest')))"

record EnrolmentsByStatus =
  user :: "user option"
  enrolments :: "(string \<times> course list) list option"

definition getUserEnrolments :: "graph \<Rightarrow> string \<Rightarrow> fault + EnrolmentsByStatus" where
  "getUserEnrolments g uid =
     (case records g uid of
        [] \<Rightarrow> Inr \<lparr>user = None, enrolments = None\<rparr>
      | (u, enr) # _ \<Rightarrow>
          (case sort_all enr of
             Inl f \<Rightarrow> Inl f
           | Inr enr' \<Rightarrow> Inr \<lparr>user = Some u, enrolments = Some enr'\<rparr>))"


section \<open>Notions used to state the properties\<close>

text \<open>A list of lessons is chained when every \<open>next\<close> stub names the lesson after it,
  every \<open>previous\<close> stub the lesson before it, and the last lesson has no \<open>next\<close>.\<close>

fun chained :: "(nat \<times> lesson) list \<Rightarrow> bool" where
  "chained [] = True"
| "chained [x] = (l_next (snd x) = None)"
| "chained (x # y # rest) =
     (map_option s_link (l_next (snd x)) = Some (link_of y) \<and>
      map_option s_link (l_previous (snd y)) = Some (link_of x) \<and>
      chained (y # rest))"

text \<open>The lessons of a course form the single chain \<open>ch\<close>: \<open>ch\<close> lists every lesson of
  the course once, the lessons have pairwise distinct links (slugs are unique within a
  module, module slugs within a course), \<open>ch\<close> starts at a lesson without \<open>previous\<close> and is
  chained.\<close>

definition chain_of :: "course \<Rightarrow> (nat \<times> lesson) list \<Rightarrow> bool" where
  "chain_of c ch \<longleftrightarrow>
     ch \<noteq> [] \<and> set ch = set (flatten c) \<and> length ch = length (flatten c) \<and>
     distinct (map link_of ch) \<and> l_previous (snd (hd ch)) = None \<and> chained ch"

text \<open>Equal entries stand next to each other: once the list has left a value it does not
  come back to it. For the owning modules along a chain this is the invariant of spec
  section 3 that the relationship leaving the last lesson of a module enters the first
  lesson of the next module.\<close>

fun grouped :: "'a list \<Rightarrow> bool" where
  "grouped [] = True"
| "grouped (x # xs) = (x \<notin> set (dropWhile (\<lambda>y. y = x) xs) \<and> grouped xs)"

text \<open>\<open>follows flat path\<close>: each lesson of \<open>path\<close> is the one that the \<open>next\<close> stub of the
  lesson before it names among \<open>flat\<close>.\<close>

fun follows :: "(nat \<times> lesson) list \<Rightarrow> (nat \<times> lesson) list \<Rightarrow> bool" where
  "follows flat (x # y # rest) =
     ((case l_next (snd x) of
         None \<Rightarrow> False
       | Some s \<Rightarrow> find (\<lambda>p. link_of p = s_link s) flat = Some y) \<and>
      follows flat (y # rest))"
| "follows flat _ = True"

text \<open>The \<open>next\<close> stub of the last lesson of \<open>path\<close> names a lesson of \<open>path\<close>.\<close>

definition closes :: "(nat \<times> lesson) list \<Rightarrow> bool" where
  "closes path =
     (case l_next (snd (last path)) of
        None \<Rightarrow> False
      | Some s \<Rightarrow> s_link s \<in> link_of ` set path)"

definition no_previous :: "nat \<times> lesson \<Rightarrow> bool" where
  "no_previous p = (l_previous (snd p) = None)"


section \<open>Example stores\<close>

definition mk_node :: "nat \<Rightarrow> string \<Rightarrow> (string \<times> string) list \<Rightarrow> node" where
  "mk_node i lab ps = \<lparr>nid = i, n_labels = [lab], n_props = ps\<rparr>"

text \<open>Two learners: \<open>u2\<close> has no enrolment; \<open>u1\<close> is enrolled (not completed) in
  course \<open>c1\<close> with modules \<open>m1 = [a, b]\<close> and \<open>m2 = [c, d]\<close> chained \<open>a \<rightarrow> b \<rightarrow> c \<rightarrow> d\<close>, every lesson marked completed; course \<open>c2\<close> has
  no module. The store returns modules and lessons in another order.\<close>

definition g_chain :: graph where
  "g_chain =
     \<lparr>g_nodes =
        [mk_node 1 ''User'' [(''id'', ''u1''), (''name'', ''Ann'')],
         mk_node 2 ''User'' [(''id'', ''u2''), (''name'', ''Bob'')],
         mk_node 10 ''Course'' [(''slug'', ''c1'')],
         mk_node 11 ''Course'' [(''slug'', ''c2'')],
         mk_node 21 ''Module'' [(''slug'', ''m2'')],
         mk_node 20 ''Module'' [(''slug'', ''m1'')],
         mk_node 30 ''Lesson'' [(''slug'', ''a'')],
         mk_node 31 ''Lesson'' [(''slug'', ''b'')],
         mk_node 32 ''Lesson'' [(''slug'', ''c'')],
         mk_node 33 ''Lesson'' [(''slug'', ''d'')],
         mk_node 40 ''Enrolment'' []],
      g_edges =
        [(1, HAS_ENROLMENT, 40), (40, FOR_COURSE, 10),
         (10, HAS_MODULE, 21), (10, HAS_MODULE, 20),
         (20, HAS_LESSON, 31), (20, HAS_LESSON, 30),
         (21, HAS_LESSON, 33), (21, HAS_LESSON, 32),
         (30, NEXT_LESSON, 31), (31, NEXT_LESSON, 32), (32, NEXT_LESSON, 33),
         (40, COMPLETED_LESSON, 30), (40, COMPLETED_LESSON, 31),
         (40, COMPLETED_LESSON, 32), (40, COMPLETED_LESSON, 33)]\<rparr>"

text \<open>A learner and no course.\<close>

definition g_no_course :: graph where
  "g_no_course = \<lparr>g_nodes = [mk_node 1 ''User'' [(''id'', ''u1'')]], g_edges = []\<rparr>"

text \<open>Two courses; the lesson \<open>a\<close> of \<open>c1\<close> has a \<open>NEXT_LESSON\<close> relationship to the lesson
  \<open>x\<close> of \<open>c2\<close>.\<close>

definition g_cross :: graph where
  "g_cross =
     \<lparr>g_nodes =
        [mk_node 10 ''Course'' [(''slug'', ''c1'')],
         mk_node 11 ''Course'' [(''slug'', ''c2'')],
         mk_node 20 ''Module'' [(''slug'', ''m1'')],
         mk_node 21 ''Module'' [(''slug'', ''m2'')],
         mk_node 30 ''Lesson'' [(''slug'', ''a'')],
         mk_node 31 ''Lesson'' [(''slug'', ''x'')]],
      g_edges =
        [(10, HAS_MODULE, 20), (11, HAS_MODULE, 21),
         (20, HAS_LESSON, 30), (21, HAS_LESSON, 31),
         (30, NEXT_LESSON, 31)]\<rparr>"

text \<open>The lesson \<open>a\<close> has two outgoing \<open>NEXT_LESSON\<close> relationships, to \<open>b\<close> and to \<open>c\<close>.\<close>

definition g_fork :: graph where
  "g_fork =
     \<lparr>g_nodes =
        [mk_node 10 ''Course'' [(''slug'', ''c1'')],
         mk_node 20 ''Module'' [(''slug'', ''m1'')],
         mk_node 30 ''Lesson'' [(''slug'', ''a'')],
         mk_node 31 ''Lesson'' [(''slug'', ''b'')],
         mk_node 32 ''Lesson'' [(''slug'', ''c'')]],
      g_edges =
        [(10, HAS_MODULE, 20),
         (20, HAS_LESSON, 30), (20, HAS_LESSON, 31), (20, HAS_LESSON, 32),
         (30, NEXT_LESSON, 31), (30, NEXT_LESSON, 32)]\<rparr>"

text \<open>The course \<open>c1\<close> of \<open>g_chain\<close> as the query builds it for the enrolled learner, and
  its chain \<open>a, b, c, d\<close>: the store returned the four lessons in the reverse order.\<close>

definition ex_course :: course where
  "ex_course =
     course_proj g_chain (mk_node 10 ''Course'' [(''slug'', ''c1'')])
       (Some (mk_node 40 ''Enrolment'' []))"

definition ex_chain :: "(nat \<times> lesson) list" where
  "ex_chain = rev (flatten ex_course)"

text \<open>The place of the first occurrence of a value in a list (proof device for the
  renumbering of modules by a second run of the resolver).\<close>

fun position :: "'a list \<Rightarrow> 'a \<Rightarrow> nat" where
  "position [] a = 0"
| "position (x # xs) a = (if x = a then 0 else Suc (position xs a))"


section \<open>Rows, groups and records\<close>

lemma set_first_seen: "set (first_seen xs) = set xs"
  by (induction xs) auto

lemma distinct_first_seen: "distinct (first_seen xs)"
  by (induction xs) (auto simp: distinct_removeAll)

lemma first_seen_Nil: "first_seen xs = [] \<longleftrightarrow> xs = []"
  by (cases xs) auto

lemma collect_by_Nil: "collect_by kvs = [] \<longleftrightarrow> kvs = []"
  by (simp add: collect_by_def first_seen_Nil)

lemma optional_enrolment_nonempty: "optional_enrolment g u c \<noteq> []"
  by (simp add: optional_enrolment_def split: list.split)

lemma matched_rows_Nil:
  "matched_rows g uid = [] \<longleftrightarrow> match_users g uid = [] \<or> match_courses g = []"
  by (auto simp: matched_rows_def optional_enrolment_nonempty)

lemma records_Nil: "records g uid = [] \<longleftrightarrow> match_users g uid = [] \<or> match_courses g = []"
  by (simp add: records_def by_user_def by_status_def collect_by_Nil matched_rows_Nil)


section \<open>Unknown learner, empty catalogue\<close>

text \<open>
  C5. For a user identifier that belongs to no \<open>User\<close> node, \<open>getUserEnrolments\<close> returns
  the empty object, with neither the \<open>user\<close> nor the \<open>enrolments\<close> key, and raises no fault.
\<close>

theorem unknown_user_empty:
  assumes "\<forall>n \<in> set (g_nodes g). \<not> (''User'' \<in> set (n_labels n) \<and> property n ''id'' = Some uid)"
  shows "getUserEnrolments g uid = Inr \<lparr>user = None, enrolments = None\<rparr>"
proof -
  from assms have "match_users g uid = []"
    by (auto simp: match_users_def filter_empty_conv)
  then have "records g uid = []"
    by (simp add: records_Nil)
  then show ?thesis
    by (simp add: getUserEnrolments_def)
qed

theorem unknown_user_empty_witness:
  "getUserEnrolments g_chain ''nobody'' = Inr \<lparr>user = None, enrolments = None\<rparr>"
proof -
  have "\<forall>n \<in> set (g_nodes g_chain). \<not> (''User'' \<in> set (n_labels n) \<and> property n ''id'' = Some ''nobody'')"
    by (simp add: g_chain_def mk_node_def property_def)
  then show ?thesis
    by (rule unknown_user_empty)
qed

text \<open>
  C9. For a known user identifier and a store without any \<open>Course\<close> node, the two \<open>MATCH\<close>
  clauses yield no row, and \<open>getUserEnrolments\<close> returns the same empty object as for an
  unknown user.
\<close>

theorem empty_catalogue_empty:
  assumes "\<exists>n \<in> set (g_nodes g). ''User'' \<in> set (n_labels n) \<and> property n ''id'' = Some uid"
    and "\<forall>n \<in> set (g_nodes g). ''Course'' \<notin> set (n_labels n)"
  shows "getUserEnrolments g uid = Inr \<lparr>user = None, enrolments = None\<rparr>"
proof -
  from assms(2) have "match_courses g = []"
    by (auto simp: match_courses_def filter_empty_conv)
  then have "records g uid = []"
    by (simp add: records_Nil)
  then show ?thesis
    by (simp add: getUserEnrolments_def)
qed

theorem empty_catalogue_empty_witness:
  "(\<exists>n \<in> set (g_nodes g_no_course). ''User'' \<in> set (n_labels n) \<and> property n ''id'' = Some ''u1'')
   \<and> getUserEnrolments g_no_course ''u1'' = Inr \<lparr>user = None, enrolments = None\<rparr>"
proof -
  have known: "\<exists>n \<in> set (g_nodes g_no_course). ''User'' \<in> set (n_labels n) \<and> property n ''id'' = Some ''u1''"
    by (simp add: g_no_course_def mk_node_def property_def)
  have none: "\<forall>n \<in> set (g_nodes g_no_course). ''Course'' \<notin> set (n_labels n)"
    by (simp add: g_no_course_def mk_node_def)
  from known empty_catalogue_empty [OF known none] show ?thesis
    by simp
qed


section \<open>The order resolver on a single chain\<close>

lemma find_unique:
  "y \<in> set xs \<Longrightarrow> P y \<Longrightarrow> (\<forall>x \<in> set xs. P x \<longrightarrow> x = y) \<Longrightarrow> find P xs = Some y"
proof (induction xs)
  case Nil
  from Nil.prems(1) show ?case by simp
next
  case (Cons a xs)
  show ?case
  proof (cases "P a")
    case True
    have "a \<in> set (a # xs)" by simp
    with Cons.prems(3) True have "a = y" by blast
    with True show ?thesis by simp
  next
    case False
    have "y \<noteq> a" using False Cons.prems(2) by blast
    with Cons.prems(1) have "y \<in> set xs" by simp
    moreover from Cons.prems(3) have "\<forall>x \<in> set xs. P x \<longrightarrow> x = y" by (meson list.set_intros(2))
    ultimately have "find P xs = Some y" using Cons.prems(2) Cons.IH by blast
    with False show ?thesis by simp
  qed
qed

lemma filter_unique:
  "distinct xs \<Longrightarrow> y \<in> set xs \<Longrightarrow> P y \<Longrightarrow> (\<forall>x \<in> set xs. P x \<longrightarrow> x = y) \<Longrightarrow> filter P xs = [y]"
proof (induction xs)
  case Nil
  from Nil.prems(2) show ?case by simp
next
  case (Cons a xs)
  from Cons.prems(4) have u: "\<forall>x \<in> set xs. P x \<longrightarrow> x = y"
    by (meson list.set_intros(2))
  from Cons.prems(1) have d: "distinct xs" and a: "a \<notin> set xs" by simp_all
  show ?case
  proof (cases "a = y")
    case True
    have "\<not> P x" if "x \<in> set xs" for x
    proof
      assume "P x"
      with u that have "x = y" by blast
      with that a True show False by simp
    qed
    then have "filter P xs = []" by (simp add: filter_empty_conv)
    with True Cons.prems(3) show ?thesis by simp
  next
    case False
    have na: "\<not> P a"
    proof
      assume "P a"
      with Cons.prems(4) have "a = y" by (meson list.set_intros(1))
      with False show False by simp
    qed
    from False Cons.prems(2) have "y \<in> set xs" by simp
    with d have "filter P xs = [y]" using Cons.prems(3) u Cons.IH by blast
    with na show ?thesis by simp
  qed
qed

lemma walk_chain:
  "chained (x # suf) \<Longrightarrow> distinct (map link_of (pre @ x # suf)) \<Longrightarrow>
   set flat = set (pre @ x # suf) \<Longrightarrow> set seen = link_of ` set (pre @ [x]) \<Longrightarrow>
   walk flat seen x = Inr (x # suf)"
proof (induction suf arbitrary: pre x seen)
  case Nil
  then show ?case by (subst walk.simps) simp
next
  case (Cons y suf)
  from Cons.prems(1) obtain s where s: "l_next (snd x) = Some s" "s_link s = link_of y"
    and ch: "chained (y # suf)"
    by auto
  from Cons.prems(2,4) s have fresh: "s_link s \<notin> set seen"
    by auto
  have inj: "inj_on link_of (set (pre @ x # y # suf))"
    using Cons.prems(2) by (simp only: distinct_map)
  have "find (\<lambda>p. link_of p = s_link s) flat = Some y"
  proof (rule find_unique)
    show "y \<in> set flat" using Cons.prems(3) by simp
    show "link_of y = s_link s" using s by simp
    show "\<forall>p \<in> set flat. link_of p = s_link s \<longrightarrow> p = y"
    proof (intro ballI impI)
      fix p assume "p \<in> set flat" "link_of p = s_link s"
      then have "p \<in> set (pre @ x # y # suf)" "link_of p = link_of y"
        using Cons.prems(3) s by simp_all
      moreover have "y \<in> set (pre @ x # y # suf)" by simp
      ultimately show "p = y" using inj by (meson inj_onD)
    qed
  qed
  moreover have "walk flat (s_link s # seen) y = Inr (y # suf)"
  proof (rule Cons.IH [where pre = "pre @ [x]"])
    show "chained (y # suf)" by (rule ch)
    show "distinct (map link_of ((pre @ [x]) @ y # suf))" using Cons.prems(2) by simp
    show "set flat = set ((pre @ [x]) @ y # suf)" using Cons.prems(3) by simp
    show "set (s_link s # seen) = link_of ` set ((pre @ [x]) @ [y])"
      using Cons.prems(4) s by auto
  qed
  ultimately show ?case
    using s fresh by (subst walk.simps) simp
qed

lemma chained_previous:
  "chained (x # suf) \<Longrightarrow> y \<in> set suf \<Longrightarrow> l_previous (snd y) \<noteq> None"
  by (induction suf arbitrary: x) auto

lemma sortCourse_chain:
  assumes "chain_of c ch"
  shows "sortCourse c = Inr (c\<lparr>c_modules := reassign (c_modules c) ch\<rparr>)"
proof -
  from assms obtain h suf where ch: "ch = h # suf"
    by (cases ch) (auto simp: chain_of_def)
  from assms ch have set: "set (flatten c) = set (h # suf)" and len: "length (flatten c) = length (h # suf)"
    and dl: "distinct (map link_of (h # suf))" and hp: "l_previous (snd h) = None"
    and chd: "chained (h # suf)"
    by (auto simp: chain_of_def)
  from dl have dh: "distinct (h # suf)" by (simp only: distinct_map)
  have "card (set (flatten c)) = card (set (h # suf))" by (simp only: set)
  also have "\<dots> = length (h # suf)" using dh by (rule distinct_card)
  finally have "card (set (flatten c)) = length (flatten c)" by (simp only: len)
  then have df: "distinct (flatten c)" by (rule card_distinct)
  have heads: "filter (\<lambda>p. l_previous (snd p) = None) (flatten c) = [h]"
  proof (rule filter_unique [OF df])
    show "h \<in> set (flatten c)" using set by simp
    show "l_previous (snd h) = None" by (rule hp)
    show "\<forall>x\<in>set (flatten c). l_previous (snd x) = None \<longrightarrow> x = h"
    proof (intro ballI impI)
      fix x assume "x \<in> set (flatten c)" "l_previous (snd x) = None"
      then show "x = h" using set chained_previous [OF chd, of x] by auto
    qed
  qed
  have "walk (flatten c) [link_of h] h = Inr (h # suf)"
    by (rule walk_chain [where pre = "[]"]) (use chd dl set in simp_all)
  moreover have "flatten c \<noteq> []" using set by auto
  ultimately show ?thesis
    unfolding sortCourse_def Let_def ch by (simp only: heads list.case sum.case if_False)
qed


lemma regroup_removeAll:
  "a \<notin> f ` set xs \<Longrightarrow>
   concat (map (\<lambda>i. filter (\<lambda>x. f x = i) xs) (removeAll a ks)) =
   concat (map (\<lambda>i. filter (\<lambda>x. f x = i) xs) ks)"
proof (induction ks)
  case Nil
  then show ?case by simp
next
  case (Cons k ks)
  have "filter (\<lambda>x. f x = a) xs = []"
    using Cons.prems by (auto simp: filter_empty_conv)
  with Cons show ?case by auto
qed

lemma regroup_Cons_other:
  "f x \<notin> set ks \<Longrightarrow>
   concat (map (\<lambda>i. filter (\<lambda>y. f y = i) (x # xs)) ks) =
   concat (map (\<lambda>i. filter (\<lambda>y. f y = i) xs) ks)"
  by (induction ks) auto

lemma regroup_grouped:
  "grouped (map f xs) \<Longrightarrow>
   concat (map (\<lambda>i. filter (\<lambda>x. f x = i) xs) (first_seen (map f xs))) = xs"
proof (induction xs)
  case Nil
  then show ?case by simp
next
  case (Cons x xs)
  define a where "a = f x"
  define G where "G ys ks = concat (map (\<lambda>i. filter (\<lambda>x. f x = i) ys) ks)" for ys ks
  from Cons.prems have g: "grouped (map f xs)"
    and away: "a \<notin> f ` set (dropWhile (\<lambda>y. f y = a) xs)"
    by (simp_all add: dropWhile_map comp_def a_def)
  from Cons.IH [OF g] have IH: "G xs (first_seen (map f xs)) = xs"
    by (simp add: G_def)
  have "G (x # xs) (first_seen (map f (x # xs)))
      = filter (\<lambda>y. f y = a) (x # xs) @ G (x # xs) (removeAll a (first_seen (map f xs)))"
    by (simp add: G_def a_def)
  also have "G (x # xs) (removeAll a (first_seen (map f xs))) = G xs (removeAll a (first_seen (map f xs)))"
    unfolding G_def a_def by (rule regroup_Cons_other) simp
  also have "filter (\<lambda>y. f y = a) (x # xs) = x # filter (\<lambda>y. f y = a) xs"
    by (simp add: a_def)
  finally have step: "G (x # xs) (first_seen (map f (x # xs)))
      = x # (filter (\<lambda>y. f y = a) xs @ G xs (removeAll a (first_seen (map f xs))))"
    by simp
  have "filter (\<lambda>y. f y = a) xs @ G xs (removeAll a (first_seen (map f xs))) = xs"
  proof (cases xs)
    case Nil
    then show ?thesis by (simp add: G_def)
  next
    case (Cons y ys)
    show ?thesis
    proof (cases "f y = a")
      case True
      have fs: "first_seen (map f xs) = a # removeAll a (first_seen (map f ys))"
        using Cons True by simp
      have "G xs (first_seen (map f xs))
        = filter (\<lambda>y. f y = a) xs @ G xs (removeAll a (first_seen (map f ys)))"
        unfolding fs by (simp add: G_def)
      moreover have "removeAll a (first_seen (map f xs)) = removeAll a (first_seen (map f ys))"
        unfolding fs by simp
      ultimately show ?thesis using IH by simp
    next
      case False
      with away Cons have notin: "a \<notin> f ` set xs" by simp
      then have "filter (\<lambda>y. f y = a) xs = []"
        by (auto simp: filter_empty_conv)
      moreover have "G xs (removeAll a (first_seen (map f xs))) = G xs (first_seen (map f xs))"
        unfolding G_def using notin by (rule regroup_removeAll)
      ultimately show ?thesis using IH by simp
    qed
  qed
  with step show ?case by (simp add: G_def)
qed


lemma map_snd_flatten: "map snd (flatten c) = concat (map m_lessons (c_modules c))"
proof -
  have "map snd (flatten c)
      = concat (map (\<lambda>im. m_lessons (snd im)) (enumerate 0 (c_modules c)))"
    by (simp add: flatten_def map_concat comp_def case_prod_unfold)
  also have "map (\<lambda>im. m_lessons (snd im)) (enumerate 0 (c_modules c))
      = map m_lessons (map snd (enumerate 0 (c_modules c)))"
    by (simp only: map_map comp_def)
  also have "map snd (enumerate 0 (c_modules c)) = c_modules c"
    by (rule map_snd_enumerate)
  finally show ?thesis .
qed

lemma chained_cong: "map snd xs = map snd ys \<Longrightarrow> chained xs = chained ys"
proof (induction xs arbitrary: ys rule: chained.induct)
  case 1
  then show ?case by simp
next
  case (2 x)
  then obtain y where "ys = [y]" "snd y = snd x" by (cases ys) auto
  then show ?case by simp
next
  case (3 x x' rest)
  from "3.prems" obtain y y' rest' where ys: "ys = y # y' # rest'"
    and eq: "snd y = snd x" "snd y' = snd x'" "map snd rest = map snd rest'"
    by (cases ys; cases "tl ys") auto
  from eq have "chained (x' # rest) = chained (y' # rest')"
    by (intro "3.IH") simp
  with ys eq show ?case by simp
qed

lemma lessons_unvisited:
  "concat (map (\<lambda>i. map snd (filter (\<lambda>p. fst p = i) ord))
               (filter (\<lambda>i. i \<notin> set (map fst ord)) ks)) = []"
  by (induction ks) (auto simp: filter_empty_conv)

lemma lessons_reassign:
  "concat (map m_lessons (reassign ms ord)) =
   map snd (concat (map (\<lambda>i. filter (\<lambda>p. fst p = i) ord) (first_seen (map fst ord))))"
proof -
  have "concat (map m_lessons (reassign ms ord))
      = concat (map (\<lambda>i. map snd (filter (\<lambda>p. fst p = i) ord)) (module_order (length ms) ord))"
    by (simp add: reassign_def comp_def)
  also have "\<dots> = concat (map (\<lambda>i. map snd (filter (\<lambda>p. fst p = i) ord)) (first_seen (map fst ord)))"
    unfolding module_order_def map_append concat_append lessons_unvisited by simp
  finally show ?thesis
    by (simp add: map_concat comp_def)
qed

text \<open>
  C1. Let the lessons of a course form the single next-lesson chain \<open>ch\<close> of the data
  model (spec section 3): \<open>ch\<close> lists every lesson once, the lessons have distinct links,
  only the first has no \<open>previous\<close> and only the last no \<open>next\<close>, each stub names its
  neighbour in \<open>ch\<close>, and the chain leaves a module only for the first lesson of the next
  one, so that the lessons of a module are consecutive (\<open>grouped\<close>). Then \<open>sortCourse\<close>
  returns the course with its lessons, taken module after module, in chain order; the
  \<open>next\<close> and \<open>previous\<close> stubs agree with that sequence, also across module boundaries;
  the modules stand in the order of their first lesson along the chain, modules without
  lessons after them in their original order, and every module holds its own lessons of
  the chain.
\<close>

theorem sortCourse_single_chain:
  assumes "chain_of c ch" and "grouped (map fst ch)"
  shows "\<exists>c'. sortCourse c = Inr c' \<and>
           concat (map m_lessons (c_modules c')) = map snd ch \<and>
           chained (flatten c') \<and> l_previous (snd (hd (flatten c'))) = None \<and>
           c_modules c' =
             map (\<lambda>i. (c_modules c ! i)\<lparr>m_lessons := map snd (filter (\<lambda>p. fst p = i) ch)\<rparr>)
                 (first_seen (map fst ch) @
                  filter (\<lambda>i. i \<notin> fst ` set ch) [0..<length (c_modules c)])"
proof -
  define c' where "c' = c\<lparr>c_modules := reassign (c_modules c) ch\<rparr>"
  have res: "sortCourse c = Inr c'"
    unfolding c'_def using assms(1) by (rule sortCourse_chain)
  have mods: "c_modules c' =
             map (\<lambda>i. (c_modules c ! i)\<lparr>m_lessons := map snd (filter (\<lambda>p. fst p = i) ch)\<rparr>)
                 (first_seen (map fst ch) @
                  filter (\<lambda>i. i \<notin> fst ` set ch) [0..<length (c_modules c)])"
    by (simp add: c'_def reassign_def module_order_def)
  have l: "concat (map m_lessons (c_modules c')) = map snd ch"
    by (simp add: c'_def lessons_reassign regroup_grouped [OF assms(2)])
  then have eq: "map snd (flatten c') = map snd ch"
    by (simp add: map_snd_flatten)
  then have "chained (flatten c') = chained ch"
    by (rule chained_cong)
  moreover from assms(1) have "chained ch" "ch \<noteq> []" "l_previous (snd (hd ch)) = None"
    by (simp_all add: chain_of_def)
  moreover from eq \<open>ch \<noteq> []\<close> have "snd (hd (flatten c')) = snd (hd ch)"
    by (cases ch; cases "flatten c'") auto
  ultimately have "chained (flatten c')" "l_previous (snd (hd (flatten c'))) = None"
    by simp_all
  with res mods l show ?thesis by blast
qed

theorem sortCourse_single_chain_witness:
  "chain_of ex_course ex_chain \<and> grouped (map fst ex_chain) \<and>
   (\<exists>c'. sortCourse ex_course = Inr c' \<and>
      concat (map m_lessons (c_modules c')) = map snd ex_chain \<and> chained (flatten c'))"
proof -
  have ch: "chain_of ex_course ex_chain"
    by code_simp
  have gr: "grouped (map fst ex_chain)"
    by code_simp
  from sortCourse_single_chain [OF ch gr] gr ch show ?thesis
    by blast
qed


section \<open>Running the order resolver twice\<close>

lemma walk_Inr_cases:
  assumes "walk flat seen cur = Inr ord"
  shows "(l_next (snd cur) = None \<and> ord = [cur]) \<or>
         (\<exists>s nxt rest. l_next (snd cur) = Some s \<and> s_link s \<notin> set seen \<and>
            find (\<lambda>p. link_of p = s_link s) flat = Some nxt \<and>
            walk flat (s_link s # seen) nxt = Inr rest \<and> ord = cur # rest)"
  using assms
  by (subst (asm) walk.simps) (auto split: option.splits if_splits sum.splits)

lemma walk_end: "l_next (snd x) = None \<Longrightarrow> walk flat seen x = Inr [x]"
  by (subst walk.simps) simp

lemma walk_step:
  "l_next (snd x) = Some s \<Longrightarrow> s_link s \<notin> set seen \<Longrightarrow>
   find (\<lambda>p. link_of p = s_link s) flat = Some y \<Longrightarrow>
   walk flat (s_link s # seen) y = Inr rest \<Longrightarrow> walk flat seen x = Inr (x # rest)"
  by (subst walk.simps) simp

lemma find_SomeD: "find P xs = Some x \<Longrightarrow> x \<in> set xs \<and> P x"
  by (induction xs) (auto split: if_splits)

lemma walk_visits:
  "walk flat seen cur = Inr ord \<Longrightarrow>
     ord \<noteq> [] \<and> hd ord = cur \<and> set (tl ord) \<subseteq> set flat \<and>
     distinct (map link_of (tl ord)) \<and> link_of ` set (tl ord) \<inter> set seen = {}"
proof (induction flat seen cur arbitrary: ord rule: walk.induct)
  case (1 flat seen cur)
  from walk_Inr_cases [OF "1.prems"] show ?case
  proof (elim disjE conjE exE)
    assume "ord = [cur]"
    then show ?thesis by simp
  next
    fix s nxt rest
    assume s: "l_next (snd cur) = Some s" and fresh: "s_link s \<notin> set seen"
      and found: "find (\<lambda>p. link_of p = s_link s) flat = Some nxt"
      and rest: "walk flat (s_link s # seen) nxt = Inr rest" and ord: "ord = cur # rest"
    from "1.IH" [OF s fresh found rest]
    have ih: "rest \<noteq> []" "hd rest = nxt" "set (tl rest) \<subseteq> set flat"
      "distinct (map link_of (tl rest))" "link_of ` set (tl rest) \<inter> set (s_link s # seen) = {}"
      by simp_all
    from found have nxt: "nxt \<in> set flat" "link_of nxt = s_link s"
      using find_SomeD by fastforce+
    from ih(1,2) have r: "rest = nxt # tl rest" by (cases rest) auto
    have "set rest \<subseteq> set flat"
      using ih(3) nxt(1) by (subst r) simp
    moreover have "distinct (map link_of rest)"
      using ih(4,5) nxt(2) by (subst r) auto
    moreover have "link_of ` set rest \<inter> set seen = {}"
      using ih(5) nxt(2) fresh by (subst r) auto
    ultimately show ?thesis using ord by simp
  qed
qed

lemma walk_reindex:
  "walk flat seen cur = Inr ord \<Longrightarrow>
   (\<forall>x \<in> set (tl ord). find (\<lambda>p. link_of p = link_of x) flat' = Some (r x)) \<Longrightarrow>
   (\<forall>x. snd (r x) = snd x) \<Longrightarrow>
   walk flat' seen (r cur) = Inr (map r ord)"
proof (induction flat seen cur arbitrary: ord rule: walk.induct)
  case (1 flat seen cur)
  from walk_Inr_cases [OF "1.prems"(1)] show ?case
  proof (elim disjE conjE exE)
    assume e: "l_next (snd cur) = None" "ord = [cur]"
    from "1.prems"(3) have "snd (r cur) = snd cur" by blast
    with e(1) have "walk flat' seen (r cur) = Inr [r cur]" by (intro walk_end) simp
    with e(2) show ?thesis by simp
  next
    fix s nxt rest
    assume s: "l_next (snd cur) = Some s" and fresh: "s_link s \<notin> set seen"
      and found: "find (\<lambda>p. link_of p = s_link s) flat = Some nxt"
      and rest: "walk flat (s_link s # seen) nxt = Inr rest" and ord: "ord = cur # rest"
    from walk_visits [OF rest] have r: "rest = nxt # tl rest" by (cases rest) auto
    from found have nxt: "link_of nxt = s_link s"
      using find_SomeD by fastforce
    have "nxt \<in> set (tl ord)" using ord r by (metis list.sel(3) list.set_intros(1))
    with "1.prems"(2) have "find (\<lambda>p. link_of p = link_of nxt) flat' = Some (r nxt)"
      by blast
    then have f': "find (\<lambda>p. link_of p = s_link s) flat' = Some (r nxt)"
      by (simp only: nxt)
    have "\<forall>x \<in> set (tl rest). find (\<lambda>p. link_of p = link_of x) flat' = Some (r x)"
      using "1.prems"(2) ord r by (metis list.sel(3) list.set_intros(2))
    from "1.IH" [OF s fresh found rest this "1.prems"(3)]
    have "walk flat' (s_link s # seen) (r nxt) = Inr (map r rest)" .
    moreover from "1.prems"(3) have "snd (r cur) = snd cur" by blast
    with s have "l_next (snd (r cur)) = Some s" by simp
    ultimately have "walk flat' seen (r cur) = Inr (r cur # map r rest)"
      using fresh f' by (intro walk_step)
    with ord show ?thesis by simp
  qed
qed


lemma position_less: "a \<in> set xs \<Longrightarrow> position xs a < length xs"
  by (induction xs) auto

lemma nth_position: "a \<in> set xs \<Longrightarrow> xs ! position xs a = a"
  by (induction xs) auto

lemma position_nth: "distinct xs \<Longrightarrow> i < length xs \<Longrightarrow> position xs (xs ! i) = i"
proof (induction xs arbitrary: i)
  case Nil
  then show ?case by simp
next
  case (Cons x xs)
  then show ?case by (cases i) auto
qed

lemma inj_on_position: "inj_on (position xs) (set xs)"
  by (rule inj_onI) (metis nth_position)

lemma map_position: "distinct xs \<Longrightarrow> map (position xs) xs = [0..<length xs]"
  by (rule nth_equalityI) (simp_all add: position_nth)

lemma first_seen_map:
  "inj_on f (set xs) \<Longrightarrow> first_seen (map f xs) = map f (first_seen xs)"
proof (induction xs)
  case Nil
  then show ?case by simp
next
  case (Cons x xs)
  then have IH: "first_seen (map f xs) = map f (first_seen xs)" by simp
  from Cons.prems have "inj_on f (insert x (set (first_seen xs)))"
    by (simp add: set_first_seen)
  then have "map f (removeAll x (first_seen xs)) = removeAll (f x) (map f (first_seen xs))"
    by (rule map_removeAll_inj_on)
  with IH show ?case by simp
qed

lemma flatten_index: "p \<in> set (flatten c) \<Longrightarrow> fst p < length (c_modules c)"
  by (auto simp: flatten_def in_set_enumerate_eq)

lemma filter_upt_rest: "k \<le> n \<Longrightarrow> filter (\<lambda>i. i \<notin> set [0..<k]) [0..<n] = [k..<n]"
proof -
  assume "k \<le> n"
  then have "[0..<n] = [0..<k] @ [k..<n]"
    by (metis le_add_diff_inverse upt_add_eq_append zero_le)
  then have "filter (\<lambda>i. i \<notin> set [0..<k]) [0..<n]
      = filter (\<lambda>i. i \<notin> set [0..<k]) [0..<k] @ filter (\<lambda>i. i \<notin> set [0..<k]) [k..<n]"
    by (metis filter_append)
  also have "filter (\<lambda>i. i \<notin> set [0..<k]) [0..<k] = []"
    by (simp add: filter_empty_conv)
  also have "filter (\<lambda>i. i \<notin> set [0..<k]) [k..<n] = [k..<n]"
    by (simp add: filter_id_conv)
  finally show ?thesis by simp
qed

lemma length_module_order:
  assumes "fst ` set ord \<subseteq> {..<n}"
  shows "length (module_order n ord) = n"
proof -
  let ?fs = "first_seen (map fst ord)"
  have sub: "set ?fs \<subseteq> set [0..<n]"
    using assms by (auto simp: set_first_seen)
  have "length (filter (\<lambda>i. i \<in> set ?fs) [0..<n]) = card ({i. i \<in> set ?fs} \<inter> set [0..<n])"
    by (rule distinct_length_filter) simp
  also have "{i. i \<in> set ?fs} \<inter> set [0..<n] = set ?fs"
    using sub by auto
  also have "card (set ?fs) = length ?fs"
    by (rule distinct_card) (rule distinct_first_seen)
  finally have "length ?fs + length (filter (\<lambda>i. i \<notin> set ?fs) [0..<n]) = length [0..<n]"
    using sum_length_filter_compl [of "\<lambda>i. i \<in> set ?fs" "[0..<n]"] by simp
  then show ?thesis
    by (simp add: module_order_def set_first_seen)
qed


lemma flatten_mapped:
  "concat (map (\<lambda>(p, m). map (\<lambda>l. (p, l)) (m_lessons m)) (enumerate n (map F ks))) =
   concat (map (\<lambda>(p, i). map (\<lambda>l. (p, l)) (m_lessons (F i))) (enumerate n ks))"
  by (induction ks arbitrary: n) simp_all

lemma flatten_unvisited:
  "\<forall>i \<in> set ks. i \<notin> fst ` set ord \<Longrightarrow>
   concat (map (\<lambda>(p, i). map (\<lambda>l. (p, l)) (map snd (filter (\<lambda>x. fst x = i) ord)))
               (enumerate n ks)) = []"
  by (induction ks arbitrary: n) (auto simp: filter_empty_conv)

lemma enumerate_position:
  "distinct ks \<Longrightarrow> enumerate 0 ks = map (\<lambda>i. (position ks i, i)) ks"
  by (rule nth_equalityI) (simp_all add: nth_enumerate_eq position_nth)

lemma flatten_reassign:
  fixes ord :: "(nat \<times> lesson) list"
  defines "fs \<equiv> first_seen (map fst ord)"
  shows "flatten (c\<lparr>c_modules := reassign ms ord\<rparr>) =
         map (\<lambda>x. (position fs (fst x), snd x))
             (concat (map (\<lambda>i. filter (\<lambda>x. fst x = i) ord) fs))"
proof -
  let ?L = "\<lambda>i. map snd (filter (\<lambda>x. fst x = i) ord)"
  let ?un = "filter (\<lambda>i. i \<notin> set (map fst ord)) [0..<length ms]"
  let ?r = "\<lambda>x :: nat \<times> lesson. (position fs (fst x), snd x)"
  have d: "distinct fs" by (simp add: fs_def distinct_first_seen)
  have un: "concat (map (\<lambda>(p, i). map (\<lambda>l. (p, l)) (?L i)) (enumerate n ?un)) = []" for n
    by (rule flatten_unvisited) simp
  let ?F = "\<lambda>i. (ms ! i)\<lparr>m_lessons := ?L i\<rparr>"
  have "reassign ms ord = map ?F (fs @ ?un)"
    by (simp only: reassign_def module_order_def fs_def)
  moreover have "c_modules (c\<lparr>c_modules := reassign ms ord\<rparr>) = reassign ms ord"
    by simp
  ultimately have "flatten (c\<lparr>c_modules := reassign ms ord\<rparr>) =
        concat (map (\<lambda>(p, m). map (\<lambda>l. (p, l)) (m_lessons m)) (enumerate 0 (map ?F (fs @ ?un))))"
    by (simp only: flatten_def)
  also have "\<dots> = concat (map (\<lambda>(p, i). map (\<lambda>l. (p, l)) (m_lessons (?F i))) (enumerate 0 (fs @ ?un)))"
    by (rule flatten_mapped)
  also have "\<dots> = concat (map (\<lambda>(p, i). map (\<lambda>l. (p, l)) (?L i)) (enumerate 0 (fs @ ?un)))"
    by simp
  also have "\<dots> = concat (map (\<lambda>(p, i). map (\<lambda>l. (p, l)) (?L i)) (enumerate 0 fs))"
    by (simp only: enumerate_append_eq map_append concat_append un append_Nil2)
  also have "\<dots> = concat (map (\<lambda>i. map (\<lambda>l. (position fs i, l)) (?L i)) fs)"
    by (simp add: enumerate_position [OF d] comp_def)
  also have "\<dots> = concat (map (\<lambda>i. map ?r (filter (\<lambda>x. fst x = i) ord)) fs)"
  proof -
    have "map (\<lambda>l. (position fs i, l)) (?L i) = map ?r (filter (\<lambda>x. fst x = i) ord)" for i
      by (induction ord) auto
    then show ?thesis by (simp only:)
  qed
  also have "\<dots> = map ?r (concat (map (\<lambda>i. filter (\<lambda>x. fst x = i) ord) fs))"
    by (simp add: map_concat comp_def)
  finally show ?thesis .
qed

lemma set_regroup:
  "set (concat (map (\<lambda>i. filter (\<lambda>x. f x = i) xs) (first_seen (map f xs)))) = set xs"
  by (auto simp: set_first_seen)

lemma regroup_single:
  "distinct ks \<Longrightarrow> f h \<in> set ks \<Longrightarrow> concat (map (\<lambda>i. filter (\<lambda>x. f x = i) [h]) ks) = [h]"
proof (induction ks)
  case Nil
  then show ?case by simp
next
  case (Cons k ks)
  show ?case
  proof (cases "f h = k")
    case True
    with Cons.prems have "f h \<notin> set ks" by auto
    then have "concat (map (\<lambda>i. filter (\<lambda>x. f x = i) [h]) ks) = []"
      by (induction ks) auto
    with True show ?thesis by simp
  next
    case False
    with Cons show ?thesis by auto
  qed
qed

lemma filter_regroup:
  "filter P (concat (map (\<lambda>i. filter (\<lambda>x. f x = i) xs) ks)) =
   concat (map (\<lambda>i. filter (\<lambda>x. f x = i) (filter P xs)) ks)"
  by (induction ks) (auto simp: conj_commute)


lemma sortCourse_InrD:
  "sortCourse c = Inr c' \<Longrightarrow> flatten c \<noteq> [] \<Longrightarrow>
   \<exists>h ord. filter (\<lambda>p. l_previous (snd p) = None) (flatten c) = [h] \<and>
     walk (flatten c) [link_of h] h = Inr ord \<and>
     c' = c\<lparr>c_modules := reassign (c_modules c) ord\<rparr>"
  by (auto simp: sortCourse_def Let_def split: list.splits sum.splits)

lemma reassign_reindexed:
  fixes ord :: "(nat \<times> lesson) list"
  defines "fs \<equiv> first_seen (map fst ord)"
  assumes sub: "fst ` set ord \<subseteq> {..<length ms}"
  shows "reassign (reassign ms ord) (map (\<lambda>x. (position fs (fst x), snd x)) ord) = reassign ms ord"
proof -
  let ?n = "length ms"
  let ?k = "length fs"
  let ?r = "\<lambda>x :: nat \<times> lesson. (position fs (fst x), snd x)"
  let ?un = "filter (\<lambda>i. i \<notin> set (map fst ord)) [0..<?n]"
  let ?L = "\<lambda>i. map snd (filter (\<lambda>x. fst x = i) ord)"
  let ?F = "\<lambda>i. (ms ! i)\<lparr>m_lessons := ?L i\<rparr>"
  let ?ms' = "reassign ms ord"
  have d: "distinct fs" and sfs: "set fs = set (map fst ord)"
    by (simp_all add: fs_def distinct_first_seen set_first_seen)
  have pi: "module_order ?n ord = fs @ ?un"
    by (simp only: module_order_def fs_def)
  have len: "length (module_order ?n ord) = ?n"
    using sub by (rule length_module_order)
  then have kn: "?k \<le> ?n" by (simp add: pi)
  have ms': "?ms' = map ?F (fs @ ?un)"
    by (simp only: reassign_def pi)
  have len': "length ?ms' = ?n"
    using len by (simp add: reassign_def)
  have "first_seen (map fst (map ?r ord)) = first_seen (map (position fs) (map fst ord))"
    by (simp add: comp_def)
  also have "\<dots> = map (position fs) fs"
  proof -
    have "inj_on (position fs) (set (map fst ord))"
      using inj_on_position [of fs] by (simp only: sfs)
    then show ?thesis
      unfolding fs_def [symmetric] by (simp only: fs_def first_seen_map)
  qed
  also have "\<dots> = [0..<?k]"
    using d by (rule map_position)
  finally have fs': "first_seen (map fst (map ?r ord)) = [0..<?k]" .
  then have "set (map fst (map ?r ord)) = set [0..<?k]"
    by (metis set_first_seen)
  then have "module_order ?n (map ?r ord) = [0..<?k] @ filter (\<lambda>i. i \<notin> set [0..<?k]) [0..<?n]"
    by (simp only: module_order_def fs')
  also have "\<dots> = [0..<?k] @ [?k..<?n]"
    using kn by (simp only: filter_upt_rest)
  also have "\<dots> = [0..<?n]"
    using kn by (metis le_add_diff_inverse upt_add_eq_append zero_le)
  finally have order': "module_order ?n (map ?r ord) = [0..<?n]" .
  have lessons': "map snd (filter (\<lambda>x. fst x = p) (map ?r ord)) = ?L ((fs @ ?un) ! p)"
    if p: "p < ?n" for p
  proof -
    have "filter (\<lambda>x. position fs (fst x) = p) ord = filter (\<lambda>x. fst x = (fs @ ?un) ! p) ord"
    proof (rule filter_cong [OF refl])
      fix x assume "x \<in> set ord"
      then have mem: "fst x \<in> set fs" by (simp add: sfs)
      show "(position fs (fst x) = p) = (fst x = (fs @ ?un) ! p)"
      proof (cases "p < ?k")
        case True
        then have "(fs @ ?un) ! p = fs ! p" by (simp add: nth_append)
        moreover have "(position fs (fst x) = p) = (fst x = fs ! p)"
          using mem True d by (metis nth_position position_nth)
        ultimately show ?thesis by simp
      next
        case False
        have "position fs (fst x) < ?k" using mem by (rule position_less)
        with False have "position fs (fst x) \<noteq> p" by simp
        moreover have "p - ?k < length ?un"
          using False p len by (simp add: pi)
        then have "?un ! (p - ?k) \<in> set ?un"
          by (rule nth_mem)
        then have "(fs @ ?un) ! p \<in> set ?un"
          using False by (simp only: nth_append if_False)
        then have "(fs @ ?un) ! p \<notin> set fs" by (simp add: sfs)
        with mem have "fst x \<noteq> (fs @ ?un) ! p" by metis
        ultimately show ?thesis by simp
      qed
    qed
    then show ?thesis
      by (simp add: filter_map comp_def)
  qed
  have "reassign ?ms' (map ?r ord)
      = map (\<lambda>p. (?ms' ! p)\<lparr>m_lessons := map snd (filter (\<lambda>x. fst x = p) (map ?r ord))\<rparr>) [0..<?n]"
    by (simp only: reassign_def [of ?ms'] len' order')
  also have "\<dots> = ?ms'"
  proof (rule nth_equalityI)
    show "length (map (\<lambda>p. (?ms' ! p)\<lparr>m_lessons := map snd (filter (\<lambda>x. fst x = p) (map ?r ord))\<rparr>) [0..<?n]) = length ?ms'"
      by (simp add: len')
  next
    fix p
    assume "p < length (map (\<lambda>p. (?ms' ! p)\<lparr>m_lessons := map snd (filter (\<lambda>x. fst x = p) (map ?r ord))\<rparr>) [0..<?n])"
    then have p: "p < ?n" by simp
    then have "p < length (fs @ ?un)" using len by (simp add: pi)
    then have "?ms' ! p = ?F ((fs @ ?un) ! p)"
      by (simp only: ms' nth_map)
    then show "map (\<lambda>p. (?ms' ! p)\<lparr>m_lessons := map snd (filter (\<lambda>x. fst x = p) (map ?r ord))\<rparr>) [0..<?n] ! p = ?ms' ! p"
      using p lessons' [OF p] by simp
  qed
  finally show ?thesis .
qed


lemma sortCourse_fixpoint:
  assumes res: "sortCourse c = Inr c'"
  shows "sortCourse c' = Inr c'"
proof (cases "flatten c = []")
  case True
  with res have "c' = c" by (simp add: sortCourse_def)
  with res show ?thesis by simp
next
  case False
  let ?P = "\<lambda>p :: nat \<times> lesson. l_previous (snd p) = None"
  let ?flat = "flatten c"
  from sortCourse_InrD [OF res False] obtain h ord where
    heads: "filter ?P ?flat = [h]" and
    walk: "walk ?flat [link_of h] h = Inr ord" and
    c': "c' = c\<lparr>c_modules := reassign (c_modules c) ord\<rparr>"
    by blast
  define fs where "fs = first_seen (map fst ord)"
  define r where "r x = (position fs (fst x), snd x)" for x :: "nat \<times> lesson"
  define G where "G = concat (map (\<lambda>i. filter (\<lambda>x. fst x = i) ord) fs)"
  have r_snd: "\<forall>x. snd (r x) = snd x" by (simp add: r_def)
  have d: "distinct fs" by (simp add: fs_def distinct_first_seen)
  from heads have "h \<in> set (filter ?P ?flat)" by simp
  then have h: "h \<in> set ?flat" "?P h" by simp_all
  from walk_visits [OF walk] have ord: "ord = h # tl ord"
    and tl: "set (tl ord) \<subseteq> set ?flat" "distinct (map link_of (tl ord))"
      "link_of ` set (tl ord) \<inter> set [link_of h] = {}"
    by (cases ord; simp)+
  have sub: "set ord \<subseteq> set ?flat"
    using tl(1) h(1) by (subst ord) simp
  have dl: "distinct (map link_of ord)"
    using tl(2,3) by (subst ord) auto
  then have dord: "distinct ord" by (simp only: distinct_map)
  have hord: "h \<in> set ord" by (subst ord) simp
  have idx: "fst ` set ord \<subseteq> {..<length (c_modules c)}"
    using sub flatten_index by fastforce
  have flat': "flatten c' = map r G"
    unfolding c' G_def fs_def r_def by (rule flatten_reassign)
  have setG: "set G = set ord"
    unfolding G_def fs_def by (rule set_regroup)
  have "filter ?P ord = [h]"
  proof (rule filter_unique [where P = ?P, OF dord hord])
    show "?P h" by (rule h(2))
    show "\<forall>x \<in> set ord. ?P x \<longrightarrow> x = h"
    proof (intro ballI impI)
      fix x assume "x \<in> set ord" "?P x"
      with sub have "x \<in> set (filter ?P ?flat)" by auto
      then show "x = h" by (simp only: heads) simp
    qed
  qed
  then have "filter ?P G = concat (map (\<lambda>i. filter (\<lambda>x. fst x = i) [h]) fs)"
    by (simp only: G_def filter_regroup)
  also have "\<dots> = [h]"
  proof (rule regroup_single [OF d])
    from hord show "fst h \<in> set fs" by (simp add: fs_def set_first_seen)
  qed
  finally have "filter ?P (flatten c') = [r h]"
    by (simp add: flat' filter_map comp_def r_def)
  moreover from this have "flatten c' \<noteq> []" by auto
  moreover have "walk (flatten c') [link_of (r h)] (r h) = Inr (map r ord)"
  proof -
    have "\<forall>x \<in> set (tl ord). find (\<lambda>p. link_of p = link_of x) (flatten c') = Some (r x)"
    proof
      fix x assume "x \<in> set (tl ord)"
      then have x: "x \<in> set ord" by (metis list.set_sel(2) walk_visits [OF walk])
      show "find (\<lambda>p. link_of p = link_of x) (flatten c') = Some (r x)"
      proof (rule find_unique)
        show "r x \<in> set (flatten c')" using x by (simp add: flat' setG)
        show "link_of (r x) = link_of x" by (simp add: r_def)
        show "\<forall>y \<in> set (flatten c'). link_of y = link_of x \<longrightarrow> y = r x"
        proof (intro ballI impI)
          fix y assume "y \<in> set (flatten c')" "link_of y = link_of x"
          then obtain z where z: "z \<in> set ord" "y = r z" "link_of z = link_of x"
            by (auto simp: flat' setG r_def)
          from dl have "inj_on link_of (set ord)" by (simp only: distinct_map)
          with z(1,3) x have "z = x" by (meson inj_onD)
          with z(2) show "y = r x" by simp
        qed
      qed
    qed
    from walk_reindex [OF walk this r_snd] show ?thesis
      by (simp add: r_def)
  qed
  moreover have "reassign (c_modules c') (map r ord) = c_modules c'"
    unfolding c' r_def fs_def using reassign_reindexed [OF idx] by simp
  ultimately have "sortCourse c' = Inr (c'\<lparr>c_modules := c_modules c'\<rparr>)"
    by (simp add: sortCourse_def Let_def)
  then show ?thesis by simp
qed

text \<open>
  C7. \<open>sortCourse\<close> is idempotent: on every course, running it on its own result gives
  that result again; a course that it rejects is rejected by the composition with the same
  fault.
\<close>

theorem sortCourse_idempotent:
  "(case sortCourse c of Inl f \<Rightarrow> Inl f | Inr c' \<Rightarrow> sortCourse c') = sortCourse c"
  by (cases "sortCourse c") (simp_all add: sortCourse_fixpoint)


section \<open>Inconsistent ordering relations\<close>

lemma walk_cycle:
  "follows flat (x # path) \<Longrightarrow> link_of x \<in> set seen \<Longrightarrow>
   l_next (snd (last (x # path))) = Some t \<Longrightarrow>
   s_link t \<in> set seen \<union> link_of ` set path \<Longrightarrow>
   walk flat seen x = Inl CycleDetected"
proof (induction path arbitrary: x seen)
  case Nil
  then have "l_next (snd x) = Some t" "s_link t \<in> set seen"
    by simp_all
  then show ?case
    by (subst walk.simps) simp
next
  case (Cons y path)
  from Cons.prems(1) obtain s where s: "l_next (snd x) = Some s"
    and found: "find (\<lambda>p. link_of p = s_link s) flat = Some y"
    and fol: "follows flat (y # path)"
    by (auto split: option.splits)
  show ?case
  proof (cases "s_link s \<in> set seen")
    case True
    with s show ?thesis by (subst walk.simps) simp
  next
    case False
    from found have ly: "link_of y = s_link s"
      using find_SomeD by fastforce
    have "last (x # y # path) = last (y # path)"
      by (rule last_ConsR) simp
    with Cons.prems(3) have t: "l_next (snd (last (y # path))) = Some t"
      by (simp only:)
    have "walk flat (s_link s # seen) y = Inl CycleDetected"
    proof (rule Cons.IH [OF fol _ t])
      show "link_of y \<in> set (s_link s # seen)" using ly by simp
      show "s_link t \<in> set (s_link s # seen) \<union> link_of ` set path"
        using Cons.prems(4) ly by auto
    qed
    with s False found show ?thesis by (subst walk.simps) simp
  qed
qed

lemma sort_each_Inl:
  "sort_each cs = Inl f \<Longrightarrow> \<exists>c \<in> set cs. sortCourse c = Inl f"
  by (induction cs arbitrary: f) (auto split: sum.splits)

lemma sort_each_faulty:
  "c \<in> set cs \<Longrightarrow> sortCourse c = Inl f \<Longrightarrow> \<exists>f'. sort_each cs = Inl f'"
  by (induction cs) (auto split: sum.splits)

lemma sort_all_Inl:
  "sort_all enr = Inl f \<Longrightarrow> \<exists>c \<in> set (concat (map snd enr)). sortCourse c = Inl f"
proof (induction enr arbitrary: f)
  case Nil
  then show ?case by simp
next
  case (Cons kv enr)
  obtain k cs where kv: "kv = (k, cs)" by (cases kv)
  show ?case
  proof (cases "sort_each cs")
    case (Inl f')
    with Cons.prems kv have "f' = f" by simp
    with Inl sort_each_Inl [of cs f] kv show ?thesis by auto
  next
    case (Inr cs')
    with Cons.prems kv have "sort_all enr = Inl f" by (simp split: sum.splits)
    with Cons.IH kv show ?thesis by auto
  qed
qed

lemma sort_all_faulty:
  "c \<in> set (concat (map snd enr)) \<Longrightarrow> sortCourse c = Inl f \<Longrightarrow> \<exists>f'. sort_all enr = Inl f'"
proof (induction enr)
  case Nil
  then show ?case by simp
next
  case (Cons kv enr)
  obtain k cs where kv: "kv = (k, cs)" by (cases kv)
  show ?case
  proof (cases "c \<in> set cs")
    case True
    from sort_each_faulty [OF True Cons.prems(2)] kv show ?thesis by auto
  next
    case False
    with Cons.prems kv have "c \<in> set (concat (map snd enr))" by simp
    from Cons.IH [OF this Cons.prems(2)] kv show ?thesis
      by (auto split: sum.splits)
  qed
qed

text \<open>
  What the modelled resolver does on an ordering relation without a usable head: with at
  least one lesson and no chain head, several chain heads, or a single head whose chain
  runs into a lesson already visited, \<open>sortCourse\<close> ends with a fault that names the
  course. A cycle that the chain from the head never reaches is outside this statement.
\<close>

lemma sortCourse_rejects:
  assumes "flatten c \<noteq> []"
    and "length (filter no_previous (flatten c)) \<noteq> 1 \<or>
         (\<exists>h path. filter no_previous (flatten c) = [h] \<and>
            follows (flatten c) (h # path) \<and> closes (h # path))"
  shows "sortCourse c =
           Inl (DataIntegrity (course_slug c)
                  (case filter no_previous (flatten c) of
                     [] \<Rightarrow> NoChainHead | [h] \<Rightarrow> CycleDetected | _ \<Rightarrow> MultipleChainHeads))"
proof -
  have np: "filter (\<lambda>p. l_previous (snd p) = None) (flatten c) = filter no_previous (flatten c)"
    by (simp add: no_previous_def [abs_def])
  show ?thesis
  proof (cases "filter no_previous (flatten c)")
    case Nil
    with assms(1) np show ?thesis by (simp add: sortCourse_def Let_def)
  next
    case (Cons h hs)
    show ?thesis
    proof (cases hs)
      case (Cons h' hs')
      with \<open>filter no_previous (flatten c) = h # hs\<close> assms(1) np show ?thesis
        by (simp add: sortCourse_def Let_def)
    next
      case Nil
      with Cons have one: "filter no_previous (flatten c) = [h]" by simp
      with assms(2) obtain path where fol: "follows (flatten c) (h # path)"
        and cl: "closes (h # path)"
        by auto
      from cl obtain t where t: "l_next (snd (last (h # path))) = Some t"
        and ret: "s_link t \<in> link_of ` set (h # path)"
        unfolding closes_def by (cases "l_next (snd (last (h # path)))") simp_all
      have "walk (flatten c) [link_of h] h = Inl CycleDetected"
      proof (rule walk_cycle [OF fol _ t])
        show "link_of h \<in> set [link_of h]" by simp
        show "s_link t \<in> set [link_of h] \<union> link_of ` set path" using ret by auto
      qed
      with one assms(1) np show ?thesis by (simp add: sortCourse_def Let_def)
    qed
  qed
qed

text \<open>The loops of \<open>getUserEnrolments\<close> have no handler: when \<open>sortCourse\<close> raises a fault
  for a course of the first record, the call ends with a fault of such a course.\<close>

lemma fault_propagates:
  assumes "records g uid = (u, enr) # rest" and "c \<in> set (concat (map snd enr))"
    and "sortCourse c = Inl f"
  shows "\<exists>f' c0. getUserEnrolments g uid = Inl f' \<and>
           c0 \<in> set (concat (map snd enr)) \<and> sortCourse c0 = Inl f'"
proof -
  from sort_all_faulty [OF assms(2,3)] obtain f' where f': "sort_all enr = Inl f'" by blast
  from sort_all_Inl [OF f'] obtain c0 where "c0 \<in> set (concat (map snd enr))" "sortCourse c0 = Inl f'"
    by blast
  moreover from assms(1) f' have "getUserEnrolments g uid = Inl f'"
    by (simp add: getUserEnrolments_def)
  ultimately show ?thesis by blast
qed


section \<open>Status labels and the enrolments mapping\<close>

lemma distinct_collect_by: "distinct (map fst (collect_by kvs))"
  by (simp add: collect_by_def comp_def distinct_first_seen)

lemma in_collect_by:
  "(k, vs) \<in> set (collect_by kvs) \<longleftrightarrow>
     k \<in> fst ` set kvs \<and> vs = map snd (filter (\<lambda>kv. fst kv = k) kvs)"
  by (auto simp: collect_by_def set_first_seen)

lemma update_fresh: "k \<notin> fst ` set al \<Longrightarrow> AList.update k v al = al @ [(k, v)]"
  by (induction al) auto

lemma fold_update_distinct:
  "distinct (map fst (acc @ ps)) \<Longrightarrow>
   fold (\<lambda>kv m. AList.update (fst kv) (snd kv) m) ps acc = acc @ ps"
proof (induction ps arbitrary: acc)
  case Nil
  then show ?case by simp
next
  case (Cons p ps)
  from Cons.prems have "fst p \<notin> fst ` set acc" by auto
  then have "AList.update (fst p) (snd p) acc = acc @ [p]"
    by (simp add: update_fresh)
  moreover from Cons.prems have "distinct (map fst ((acc @ [p]) @ ps))" by simp
  ultimately show ?case using Cons.IH [of "acc @ [p]"] by simp
qed

lemma fromPairs_distinct: "distinct (map fst ps) \<Longrightarrow> fromPairs ps = ps"
  using fold_update_distinct [of "[]" ps] by (simp add: fromPairs_def)

lemma by_user_pairs:
  "map snd (filter (\<lambda>kv. fst kv = u) (map (\<lambda>((u, s), cs). (u, (s, cs))) groups)) =
   map (\<lambda>g. (snd (fst g), snd g)) (filter (\<lambda>g. fst (fst g) = u) groups)"
  by (induction groups) auto

lemma distinct_by_user_pairs:
  assumes "distinct (map fst groups)"
  shows "distinct (map fst (map (\<lambda>g. (snd (fst g), snd g)) (filter (\<lambda>g. fst (fst g) = u) groups)))"
proof -
  let ?sel = "filter (\<lambda>g. fst (fst g) = u) groups"
  from assms have "distinct (map fst ?sel)"
    by (rule distinct_map_filter)
  moreover have "inj_on snd (set (map fst ?sel))"
    by (rule inj_onI) (auto simp: prod_eq_iff)
  ultimately have "distinct (map snd (map fst ?sel))"
    by (simp only: distinct_map)
  then show ?thesis by (simp add: comp_def)
qed

lemma records_entry:
  assumes "(u, enr) \<in> set (records g uid)"
  defines "prows \<equiv> map (project_row g) (matched_rows g uid)"
  shows "distinct (map fst enr)"
    and "(k, cs) \<in> set enr \<longleftrightarrow>
           cs \<noteq> [] \<and> cs = map (\<lambda>r. snd (snd r)) (filter (\<lambda>r. fst r = u \<and> fst (snd r) = k) prows)"
    and "u \<in> fst ` set prows"
proof -
  let ?kv = "map (\<lambda>(u, s, c). ((u, s), c)) prows"
  let ?S = "collect_by ?kv"
  let ?pairs = "map (\<lambda>g. (snd (fst g), snd g)) (filter (\<lambda>g. fst (fst g) = u) ?S)"
  have S: "by_status prows = ?S" by (simp add: by_status_def)
  from assms(1) have "(u, enr) \<in> set (map (\<lambda>(u, pairs). (u, fromPairs pairs)) (by_user (by_status prows)))"
    by (simp only: records_def prows_def)
  then obtain pairs where "(u, pairs) \<in> set (by_user (by_status prows))" and enr: "enr = fromPairs pairs"
    by auto
  then have in_U: "(u, pairs) \<in> set (by_user ?S)"
    by (simp only: S)
  from in_U have uS: "u \<in> fst ` fst ` set ?S" and pairs: "pairs = ?pairs"
    by (force simp: by_user_def in_collect_by by_user_pairs)+
  have dS: "distinct (map fst ?S)" by (rule distinct_collect_by)
  then have dp: "distinct (map fst ?pairs)" by (rule distinct_by_user_pairs)
  with enr pairs have e: "enr = ?pairs" by (simp only: fromPairs_distinct)
  from dp e show "distinct (map fst enr)" by simp
  have filt: "map snd (filter (\<lambda>kv. fst kv = (u, k)) ?kv)
      = map (\<lambda>r. snd (snd r)) (filter (\<lambda>r. fst r = u \<and> fst (snd r) = k) prows)"
    by (induction prows) auto
  have "(k, cs) \<in> set enr \<longleftrightarrow> ((u, k), cs) \<in> set ?S"
    unfolding e by force
  also have "\<dots> \<longleftrightarrow> (u, k) \<in> fst ` set ?kv \<and> cs = map snd (filter (\<lambda>kv. fst kv = (u, k)) ?kv)"
    by (rule in_collect_by)
  also have "\<dots> \<longleftrightarrow> cs \<noteq> [] \<and> cs = map (\<lambda>r. snd (snd r)) (filter (\<lambda>r. fst r = u \<and> fst (snd r) = k) prows)"
    unfolding filt by (force simp: filter_empty_conv)
  finally show "(k, cs) \<in> set enr \<longleftrightarrow>
           cs \<noteq> [] \<and> cs = map (\<lambda>r. snd (snd r)) (filter (\<lambda>r. fst r = u \<and> fst (snd r) = k) prows)" .
  from uS show "u \<in> fst ` set prows"
    by (force simp: in_collect_by)
qed


lemma sort_each_Inr:
  "sort_each cs = Inr cs' \<Longrightarrow> list_all2 (\<lambda>c c'. sortCourse c = Inr c') cs cs'"
  by (induction cs arbitrary: cs') (auto split: sum.splits)

lemma sort_all_Inr:
  "sort_all enr = Inr enr' \<Longrightarrow>
   list_all2 (\<lambda>kv kv'. fst kv' = fst kv \<and>
                list_all2 (\<lambda>c c'. sortCourse c = Inr c') (snd kv) (snd kv')) enr enr'"
proof (induction enr arbitrary: enr')
  case Nil
  then show ?case by simp
next
  case (Cons kv enr)
  obtain k cs where kv: "kv = (k, cs)" by (cases kv)
  from Cons.prems kv obtain cs' rest' where "sort_each cs = Inr cs'" "sort_all enr = Inr rest'"
    "enr' = (k, cs') # rest'"
    by (auto split: sum.splits)
  with Cons.IH kv show ?case by (simp add: sort_each_Inr)
qed

lemma list_all2_left: "list_all2 P xs ys \<Longrightarrow> x \<in> set xs \<Longrightarrow> \<exists>y \<in> set ys. P x y"
  by (induction rule: list_all2_induct) auto

lemma list_all2_right: "list_all2 P xs ys \<Longrightarrow> y \<in> set ys \<Longrightarrow> \<exists>x \<in> set xs. P x y"
  by (induction rule: list_all2_induct) auto

lemma distinct_single: "distinct xs \<Longrightarrow> set xs = {a} \<Longrightarrow> xs = [a]"
proof -
  assume d: "distinct xs" and s: "set xs = {a}"
  then obtain x ys where xs: "xs = x # ys" by (cases xs) auto
  with s have "x = a" by auto
  moreover have "ys = []"
  proof (cases ys)
    case (Cons y zs)
    with xs s have "y = a" by auto
    with xs Cons d \<open>x = a\<close> show ?thesis by simp
  qed simp
  ultimately show ?thesis using xs by simp
qed

lemma getUserEnrolments_InrD:
  assumes "getUserEnrolments g uid = Inr r" and "enrolments r = Some enr'"
  shows "\<exists>usr enr rest. records g uid = (usr, enr) # rest \<and> sort_all enr = Inr enr' \<and>
           user r = Some usr"
  using assms by (auto simp: getUserEnrolments_def split: list.splits sum.splits)

lemma project_row_simps:
  "fst (project_row g row) = user_proj (fst row)"
  "fst (snd (project_row g row)) = status_of (snd (snd row))"
  "snd (snd (project_row g row)) = course_proj g (fst (snd row)) (snd (snd row))"
  by (simp_all add: project_row_def case_prod_unfold)

text \<open>
  C4. For a known learner, the \<open>enrolments\<close> mapping that \<open>getUserEnrolments\<close> returns has
  a key for a status label exactly when one of the learner's rows carries that label; no
  key is bound to an empty list and no key occurs twice. For a learner without any
  enrolment the only key is \<open>available\<close> (so \<open>enrolled\<close> and \<open>completed\<close> are absent) and
  every course of the catalogue appears under it, as ordered by \<open>sortCourse\<close>.
\<close>

theorem enrolment_keys:
  assumes "getUserEnrolments g uid = Inr r" and "user r = Some usr" and "enrolments r = Some enr"
  shows "(\<forall>k. k \<in> fst ` set enr \<longleftrightarrow>
            (\<exists>row \<in> set (matched_rows g uid).
               user_proj (fst row) = usr \<and> status_of (snd (snd row)) = k)) \<and>
         (\<forall>k cs. (k, cs) \<in> set enr \<longrightarrow> cs \<noteq> []) \<and>
         distinct (map fst enr) \<and>
         ((\<forall>u \<in> set (match_users g uid). \<forall>c \<in> set (match_courses g). enrolment_matches g u c = []) \<longrightarrow>
            map fst enr = [STATUS_AVAILABLE] \<and>
            (\<forall>c \<in> set (match_courses g). \<exists>cs c'.
               map_of enr STATUS_AVAILABLE = Some cs \<and> c' \<in> set cs \<and>
               sortCourse (course_proj g c None) = Inr c'))"
proof -
  let ?prows = "map (project_row g) (matched_rows g uid)"
  let ?sel = "\<lambda>k. map (\<lambda>r. snd (snd r)) (filter (\<lambda>r. fst r = usr \<and> fst (snd r) = k) ?prows)"
  let ?R = "\<lambda>c c'. sortCourse c = Inr c'"
  from getUserEnrolments_InrD [OF assms(1,3)] assms(2) obtain enr0 rest where
    recs: "records g uid = (usr, enr0) # rest" and sorted: "sort_all enr0 = Inr enr"
    by auto
  from recs have mem: "(usr, enr0) \<in> set (records g uid)" by simp
  note entry = records_entry [OF mem]
  note rel = sort_all_Inr [OF sorted]
  have keys_eq: "map fst enr = map fst enr0"
    using rel by (induction rule: list_all2_induct) auto
  have sel_nonempty: "?sel k \<noteq> [] \<longleftrightarrow>
      (\<exists>row \<in> set (matched_rows g uid). user_proj (fst row) = usr \<and> status_of (snd (snd row)) = k)" for k
    by (auto simp: filter_empty_conv project_row_simps)
  have keys: "k \<in> fst ` set enr \<longleftrightarrow>
      (\<exists>row \<in> set (matched_rows g uid). user_proj (fst row) = usr \<and> status_of (snd (snd row)) = k)" for k
  proof -
    have "k \<in> fst ` set enr \<longleftrightarrow> k \<in> set (map fst enr0)"
      by (simp flip: keys_eq)
    also have "\<dots> \<longleftrightarrow> (\<exists>cs. (k, cs) \<in> set enr0)" by force
    also have "\<dots> \<longleftrightarrow> ?sel k \<noteq> []" by (simp add: entry(2))
    finally show ?thesis by (simp only: sel_nonempty)
  qed
  have nonempty: "cs \<noteq> []" if "(k, cs) \<in> set enr" for k cs
  proof -
    from list_all2_right [OF rel that] obtain kv where kv: "kv \<in> set enr0" "fst kv = k"
      "list_all2 ?R (snd kv) cs"
      by auto
    then have "(k, snd kv) \<in> set enr0" by auto
    then have "snd kv \<noteq> []" using entry(2) by blast
    with kv(3) show ?thesis by auto
  qed
  have dist: "distinct (map fst enr)"
    using entry(1) by (simp only: keys_eq)
  have free: "map fst enr = [STATUS_AVAILABLE] \<and>
            (\<forall>c \<in> set (match_courses g). \<exists>cs c'.
               map_of enr STATUS_AVAILABLE = Some cs \<and> c' \<in> set cs \<and>
               sortCourse (course_proj g c None) = Inr c')"
    if none: "\<forall>u \<in> set (match_users g uid). \<forall>c \<in> set (match_courses g). enrolment_matches g u c = []"
  proof -
    have rows: "set (matched_rows g uid) =
        {(u, c, None) | u c. u \<in> set (match_users g uid) \<and> c \<in> set (match_courses g)}"
      using none by (auto simp: matched_rows_def optional_enrolment_def)
    have all_none: "snd (snd row) = None" if "row \<in> set (matched_rows g uid)" for row
      using that by (auto simp: rows)
    have "fst ` set enr = {STATUS_AVAILABLE}"
    proof -
      from entry(3) obtain row where "row \<in> set (matched_rows g uid)" "user_proj (fst row) = usr"
        by (auto simp: project_row_simps)
      with all_none [of row] have "STATUS_AVAILABLE \<in> fst ` set enr"
        by (auto simp: keys status_of_def)
      moreover have "k = STATUS_AVAILABLE" if "k \<in> fst ` set enr" for k
        using that all_none by (auto simp: keys status_of_def)
      ultimately show ?thesis by auto
    qed
    with dist have only: "map fst enr = [STATUS_AVAILABLE]"
      by (intro distinct_single) simp_all
    then obtain cs where enr: "enr = [(STATUS_AVAILABLE, cs)]"
      by (cases enr; cases "tl enr") auto
    with keys_eq obtain cs0 where enr0: "enr0 = [(STATUS_AVAILABLE, cs0)]"
      by (cases enr0; cases "tl enr0") auto
    from rel enr enr0 have R: "list_all2 ?R cs0 cs" by simp
    from enr0 have cs0: "cs0 = ?sel STATUS_AVAILABLE"
      using entry(2) [of STATUS_AVAILABLE cs0] by simp
    have "\<exists>cs' c'. map_of enr STATUS_AVAILABLE = Some cs' \<and> c' \<in> set cs' \<and>
               sortCourse (course_proj g c None) = Inr c'"
      if c: "c \<in> set (match_courses g)" for c
    proof -
      from entry(3) obtain row where row: "row \<in> set (matched_rows g uid)" "user_proj (fst row) = usr"
        by (auto simp: project_row_simps)
      then have "fst row \<in> set (match_users g uid)" by (auto simp: rows)
      with c have "(fst row, c, None) \<in> set (matched_rows g uid)" by (auto simp: rows)
      then have "project_row g (fst row, c, None) \<in> set ?prows" by simp
      then have "course_proj g c None \<in> set cs0"
        unfolding cs0 using row(2) by (force simp: project_row_def status_of_def)
      from list_all2_left [OF R this] enr show ?thesis by auto
    qed
    with only show ?thesis by blast
  qed
  from keys nonempty dist free show ?thesis by blast
qed


theorem enrolment_keys_witness:
  "\<exists>r usr enr. getUserEnrolments g_chain ''u2'' = Inr r \<and> user r = Some usr \<and>
     enrolments r = Some enr \<and>
     (\<forall>u \<in> set (match_users g_chain ''u2''). \<forall>c \<in> set (match_courses g_chain).
        enrolment_matches g_chain u c = []) \<and>
     map fst enr = [STATUS_AVAILABLE] \<and> map_of enr STATUS_ENROLLED = None \<and>
     map_of enr STATUS_COMPLETED = None \<and> (\<forall>k cs. (k, cs) \<in> set enr \<longrightarrow> cs \<noteq> [])"
proof -
  have a: "\<not> isl (getUserEnrolments g_chain ''u2'')" by code_simp
  have b: "map_sum id (\<lambda>r. user r = None \<or> enrolments r = None) (getUserEnrolments g_chain ''u2'') = Inr False"
    by code_simp
  have none: "\<forall>u \<in> set (match_users g_chain ''u2''). \<forall>c \<in> set (match_courses g_chain).
        enrolment_matches g_chain u c = []"
    by code_simp
  from a obtain r where r: "getUserEnrolments g_chain ''u2'' = Inr r"
    by (cases "getUserEnrolments g_chain ''u2''") auto
  with b obtain usr enr where ue: "user r = Some usr" "enrolments r = Some enr"
    by auto
  note k = enrolment_keys [OF r ue]
  from k none have only: "map fst enr = [STATUS_AVAILABLE]" by blast
  then have m: "map_of enr STATUS_ENROLLED = None" "map_of enr STATUS_COMPLETED = None"
    by (simp_all add: map_of_eq_None_iff STATUS_AVAILABLE_def STATUS_ENROLLED_def STATUS_COMPLETED_def
          flip: set_map)
  from k have ne: "\<forall>k cs. (k, cs) \<in> set enr \<longrightarrow> cs \<noteq> []"
    by (elim conjE)
  from r ue none only m ne
  have "getUserEnrolments g_chain ''u2'' = Inr r \<and> user r = Some usr \<and>
     enrolments r = Some enr \<and>
     (\<forall>u \<in> set (match_users g_chain ''u2''). \<forall>c \<in> set (match_courses g_chain).
        enrolment_matches g_chain u c = []) \<and>
     map fst enr = [STATUS_AVAILABLE] \<and> map_of enr STATUS_ENROLLED = None \<and>
     map_of enr STATUS_COMPLETED = None \<and> (\<forall>k cs. (k, cs) \<in> set enr \<longrightarrow> cs \<noteq> [])"
    by (intro conjI)
  then show ?thesis by (intro exI)
qed

text \<open>
  C3. The status label of a row is a three-way function of its enrolment alone: no
  enrolment gives \<open>available\<close>, an enrolment labelled \<open>CompletedEnrolment\<close> gives
  \<open>completed\<close>, any other enrolment gives \<open>enrolled\<close>; the three labels differ, and the
  mapping returned by \<open>getUserEnrolments\<close> has no other key.
\<close>

theorem status_three_way:
  "(\<forall>row \<in> set (matched_rows g uid).
      fst (snd (project_row g row)) =
        (case snd (snd row) of
           None \<Rightarrow> STATUS_AVAILABLE
         | Some e \<Rightarrow> if ''CompletedEnrolment'' \<in> set (n_labels e)
                     then STATUS_COMPLETED else STATUS_ENROLLED)) \<and>
   (\<forall>r enr. getUserEnrolments g uid = Inr r \<and> enrolments r = Some enr \<longrightarrow>
      fst ` set enr \<subseteq> {STATUS_AVAILABLE, STATUS_ENROLLED, STATUS_COMPLETED}) \<and>
   distinct [STATUS_AVAILABLE, STATUS_ENROLLED, STATUS_COMPLETED]"
proof -
  have three: "status_of e \<in> {STATUS_AVAILABLE, STATUS_ENROLLED, STATUS_COMPLETED}" for e
    by (simp add: status_of_def split: option.split)
  have rows: "fst (snd (project_row g row)) =
        (case snd (snd row) of
           None \<Rightarrow> STATUS_AVAILABLE
         | Some e \<Rightarrow> if ''CompletedEnrolment'' \<in> set (n_labels e)
                     then STATUS_COMPLETED else STATUS_ENROLLED)" for row
    by (simp add: project_row_simps status_of_def is_completed_def split: option.split)
  have keys: "fst ` set enr \<subseteq> {STATUS_AVAILABLE, STATUS_ENROLLED, STATUS_COMPLETED}"
    if "getUserEnrolments g uid = Inr r" "enrolments r = Some enr" for r enr
  proof
    fix k assume k: "k \<in> fst ` set enr"
    from getUserEnrolments_InrD [OF that] obtain usr enr0 rest where
      recs: "records g uid = (usr, enr0) # rest" and sorted: "sort_all enr0 = Inr enr"
      by blast
    have "map fst enr = map fst enr0"
      using sort_all_Inr [OF sorted] by (induction rule: list_all2_induct) auto
    with k have "k \<in> fst ` set enr0" by (metis set_map)
    then obtain cs where "(k, cs) \<in> set enr0" by auto
    moreover from recs have "(usr, enr0) \<in> set (records g uid)" by simp
    ultimately have "filter (\<lambda>r. fst r = usr \<and> fst (snd r) = k)
        (map (project_row g) (matched_rows g uid)) \<noteq> []"
      using records_entry(2) by fastforce
    then obtain row where "status_of (snd (snd row)) = k"
      by (auto simp: filter_empty_conv project_row_simps)
    with three [of "snd (snd row)"] show "k \<in> {STATUS_AVAILABLE, STATUS_ENROLLED, STATUS_COMPLETED}"
      by simp
  qed
  have "distinct [STATUS_AVAILABLE, STATUS_ENROLLED, STATUS_COMPLETED]"
    by (simp add: STATUS_AVAILABLE_def STATUS_ENROLLED_def STATUS_COMPLETED_def)
  with rows keys show ?thesis by blast
qed

theorem status_three_way_witness:
  "(mk_node 1 ''User'' [(''id'', ''u1''), (''name'', ''Ann'')],
    mk_node 10 ''Course'' [(''slug'', ''c1'')],
    Some (mk_node 40 ''Enrolment'' [])) \<in> set (matched_rows g_chain ''u1'') \<and>
   fst (snd (project_row g_chain
     (mk_node 1 ''User'' [(''id'', ''u1''), (''name'', ''Ann'')],
      mk_node 10 ''Course'' [(''slug'', ''c1'')],
      Some (mk_node 40 ''Enrolment'' [])))) = STATUS_ENROLLED \<and>
   (\<exists>r enr. getUserEnrolments g_chain ''u1'' = Inr r \<and> enrolments r = Some enr \<and>
      fst ` set enr \<subseteq> {STATUS_AVAILABLE, STATUS_ENROLLED, STATUS_COMPLETED})"
proof -
  let ?row = "(mk_node 1 ''User'' [(''id'', ''u1''), (''name'', ''Ann'')],
    mk_node 10 ''Course'' [(''slug'', ''c1'')],
    Some (mk_node 40 ''Enrolment'' []))"
  have row: "?row \<in> set (matched_rows g_chain ''u1'')" by code_simp
  have a: "\<not> isl (getUserEnrolments g_chain ''u1'')" by code_simp
  have b: "map_sum id (\<lambda>r. enrolments r = None) (getUserEnrolments g_chain ''u1'') = Inr False"
    by code_simp
  from a obtain r where r: "getUserEnrolments g_chain ''u1'' = Inr r"
    by (cases "getUserEnrolments g_chain ''u1''") auto
  with b obtain enr where enr: "enrolments r = Some enr" by auto
  note t = status_three_way [of g_chain "''u1''"]
  from t row have "fst (snd (project_row g_chain ?row)) = STATUS_ENROLLED"
    by (simp add: mk_node_def)
  moreover from t r enr have "fst ` set enr \<subseteq> {STATUS_AVAILABLE, STATUS_ENROLLED, STATUS_COMPLETED}"
    by blast
  ultimately show ?thesis using row r enr by blast
qed


section \<open>Neighbour stubs and completion flags\<close>

lemma node_at_SomeD: "node_at g t = Some n \<Longrightarrow> nid n = t \<and> n \<in> set (g_nodes g)"
  unfolding node_at_def using find_SomeD by fastforce

lemma in_map_filter: "y \<in> set (List.map_filter f xs) \<longleftrightarrow> (\<exists>x \<in> set xs. f x = Some y)"
  by (induction xs) (auto split: option.splits)

lemma in_out_nodes:
  "n \<in> set (out_nodes g a r) \<longleftrightarrow>
     (\<exists>t. (nid a, r, t) \<in> set (g_edges g) \<and> node_at g t = Some n)"
  by (force simp: out_nodes_def in_map_filter split: if_splits)

lemma in_in_nodes:
  "n \<in> set (in_nodes g a r) \<longleftrightarrow>
     (\<exists>s. (s, r, nid a) \<in> set (g_edges g) \<and> node_at g s = Some n)"
  by (force simp: in_nodes_def in_map_filter split: if_splits)

lemma first_or_null_SomeD: "first_or_null xs = Some x \<Longrightarrow> x \<in> set xs"
  by (cases xs) auto

lemma in_next_matches:
  "s \<in> set (next_matches g c l) \<longleftrightarrow>
     (\<exists>nxt nm. nxt \<in> set (out_nodes g l NEXT_LESSON) \<and> nm \<in> set (in_nodes g nxt HAS_LESSON) \<and>
        s = neighbour c nm nxt)"
  by (auto simp: next_matches_def)

lemma in_previous_matches:
  "s \<in> set (previous_matches g c l) \<longleftrightarrow>
     (\<exists>prev pm. prev \<in> set (in_nodes g l NEXT_LESSON) \<and> pm \<in> set (in_nodes g prev HAS_LESSON) \<and>
        s = neighbour c pm prev)"
  by (auto simp: previous_matches_def)

text \<open>
  C2, as amended. The \<open>next\<close> (\<open>previous\<close>) stub of an assembled lesson, when present, is
  built from a lesson that a \<open>NEXT_LESSON\<close> relationship joins to (from) the lesson and from
  a node with a \<open>HAS_LESSON\<close> relationship to that neighbour. The pattern does not ask that
  this owning module be a module of the current course; the link of the stub is built
  from the current course's slug all the same.
\<close>

theorem neighbour_stub_scope:
  "(\<forall>s. l_next (lesson_proj g c e m l) = Some s \<longrightarrow>
      (\<exists>nxt nm. nxt \<in> set (g_nodes g) \<and> nm \<in> set (g_nodes g) \<and>
         (nid l, NEXT_LESSON, nid nxt) \<in> set (g_edges g) \<and>
         (nid nm, HAS_LESSON, nid nxt) \<in> set (g_edges g) \<and>
         s = neighbour c nm nxt)) \<and>
   (\<forall>s. l_previous (lesson_proj g c e m l) = Some s \<longrightarrow>
      (\<exists>prev pm. prev \<in> set (g_nodes g) \<and> pm \<in> set (g_nodes g) \<and>
         (nid prev, NEXT_LESSON, nid l) \<in> set (g_edges g) \<and>
         (nid pm, HAS_LESSON, nid prev) \<in> set (g_edges g) \<and>
         s = neighbour c pm prev))"
proof (intro conjI allI impI)
  fix s assume "l_next (lesson_proj g c e m l) = Some s"
  then have "s \<in> set (next_matches g c l)"
    by (simp add: lesson_proj_def first_or_null_SomeD)
  then obtain nxt nm t t' where "(nid l, NEXT_LESSON, t) \<in> set (g_edges g)" "node_at g t = Some nxt"
    "(t', HAS_LESSON, nid nxt) \<in> set (g_edges g)" "node_at g t' = Some nm" "s = neighbour c nm nxt"
    unfolding in_next_matches in_out_nodes in_in_nodes by blast
  then show "\<exists>nxt nm. nxt \<in> set (g_nodes g) \<and> nm \<in> set (g_nodes g) \<and>
         (nid l, NEXT_LESSON, nid nxt) \<in> set (g_edges g) \<and>
         (nid nm, HAS_LESSON, nid nxt) \<in> set (g_edges g) \<and>
         s = neighbour c nm nxt"
    using node_at_SomeD by blast
next
  fix s assume "l_previous (lesson_proj g c e m l) = Some s"
  then have "s \<in> set (previous_matches g c l)"
    by (simp add: lesson_proj_def first_or_null_SomeD)
  then obtain prev pm t t' where "(t, NEXT_LESSON, nid l) \<in> set (g_edges g)" "node_at g t = Some prev"
    "(t', HAS_LESSON, nid prev) \<in> set (g_edges g)" "node_at g t' = Some pm" "s = neighbour c pm prev"
    unfolding in_previous_matches in_in_nodes by blast
  then show "\<exists>prev pm. prev \<in> set (g_nodes g) \<and> pm \<in> set (g_nodes g) \<and>
         (nid prev, NEXT_LESSON, nid l) \<in> set (g_edges g) \<and>
         (nid pm, HAS_LESSON, nid prev) \<in> set (g_edges g) \<and>
         s = neighbour c pm prev"
    using node_at_SomeD by blast
qed


theorem neighbour_stub_scope_witness:
  "l_next (lesson_proj g_cross (mk_node 10 ''Course'' [(''slug'', ''c1'')]) None
      (mk_node 20 ''Module'' [(''slug'', ''m1'')]) (mk_node 30 ''Lesson'' [(''slug'', ''a'')])) =
     Some \<lparr>s_slug = Some ''x'', s_title = None, s_link = Some ''/courses/c1/m2/x''\<rparr> \<and>
   (\<exists>nxt nm. nxt \<in> set (g_nodes g_cross) \<and> nm \<in> set (g_nodes g_cross) \<and>
      (30, NEXT_LESSON, nid nxt) \<in> set (g_edges g_cross) \<and>
      (nid nm, HAS_LESSON, nid nxt) \<in> set (g_edges g_cross) \<and>
      \<lparr>s_slug = Some ''x'', s_title = None, s_link = Some ''/courses/c1/m2/x''\<rparr> =
        neighbour (mk_node 10 ''Course'' [(''slug'', ''c1'')]) nm nxt)"
proof -
  let ?c = "mk_node 10 ''Course'' [(''slug'', ''c1'')]"
  let ?m = "mk_node 20 ''Module'' [(''slug'', ''m1'')]"
  let ?l = "mk_node 30 ''Lesson'' [(''slug'', ''a'')]"
  let ?s = "\<lparr>s_slug = Some ''x'', s_title = None, s_link = Some ''/courses/c1/m2/x''\<rparr>"
  have n: "l_next (lesson_proj g_cross ?c None ?m ?l) = Some ?s"
    by code_simp
  have "nid ?l = 30" by (simp add: mk_node_def)
  with neighbour_stub_scope [of g_cross ?c None ?m ?l] n show ?thesis
    by (metis (no_types, lifting))
qed

text \<open>
  C2 as stated fails: in \<open>g_cross\<close> the lesson \<open>a\<close> of course \<open>c1\<close> gets the \<open>next\<close> stub of
  lesson \<open>x\<close>, whose only owning module \<open>m2\<close> is a module of \<open>c2\<close> and not of \<open>c1\<close>.
\<close>

theorem neighbour_outside_course_counterexample:
  "map (\<lambda>m. map l_next (m_lessons m))
       (c_modules (course_proj g_cross (mk_node 10 ''Course'' [(''slug'', ''c1'')]) None)) =
     [[Some \<lparr>s_slug = Some ''x'', s_title = None, s_link = Some ''/courses/c1/m2/x''\<rparr>]] \<and>
   in_nodes g_cross (mk_node 31 ''Lesson'' [(''slug'', ''x'')]) HAS_LESSON =
     [mk_node 21 ''Module'' [(''slug'', ''m2'')]] \<and>
   out_nodes g_cross (mk_node 10 ''Course'' [(''slug'', ''c1'')]) HAS_MODULE =
     [mk_node 20 ''Module'' [(''slug'', ''m1'')]] \<and>
   out_nodes g_cross (mk_node 11 ''Course'' [(''slug'', ''c2'')]) HAS_MODULE =
     [mk_node 21 ''Module'' [(''slug'', ''m2'')]]"
  by code_simp

text \<open>
  C10. The \<open>next\<close> and \<open>previous\<close> fields hold no stub when the pattern has no match and
  otherwise the first match, whatever the number of matches, which are exactly the stubs
  of the neighbours joined by a \<open>NEXT_LESSON\<close> relationship (one per owning module). The
  assembly itself raises nothing: a fault of \<open>getUserEnrolments\<close> is always one that
  \<open>sortCourse\<close> raised afterwards for a course of the first record.
\<close>

theorem neighbour_first_match:
  "(next_matches g c l = [] \<longrightarrow> l_next (lesson_proj g c e m l) = None) \<and>
   (\<forall>s rest. next_matches g c l = s # rest \<longrightarrow> l_next (lesson_proj g c e m l) = Some s) \<and>
   (previous_matches g c l = [] \<longrightarrow> l_previous (lesson_proj g c e m l) = None) \<and>
   (\<forall>s rest. previous_matches g c l = s # rest \<longrightarrow>
      l_previous (lesson_proj g c e m l) = Some s) \<and>
   set (next_matches g c l) =
     {neighbour c nm nxt | nxt nm.
        nxt \<in> set (out_nodes g l NEXT_LESSON) \<and> nm \<in> set (in_nodes g nxt HAS_LESSON)} \<and>
   set (previous_matches g c l) =
     {neighbour c pm prev | prev pm.
        prev \<in> set (in_nodes g l NEXT_LESSON) \<and> pm \<in> set (in_nodes g prev HAS_LESSON)} \<and>
   (\<forall>uid f. getUserEnrolments g uid = Inl f \<longrightarrow>
      (\<exists>u enr rest c0. records g uid = (u, enr) # rest \<and>
         c0 \<in> set (concat (map snd enr)) \<and> sortCourse c0 = Inl f))"
proof -
  have "set (next_matches g c l) =
     {neighbour c nm nxt | nxt nm.
        nxt \<in> set (out_nodes g l NEXT_LESSON) \<and> nm \<in> set (in_nodes g nxt HAS_LESSON)}"
    using in_next_matches [of _ g c l] by blast
  moreover have "set (previous_matches g c l) =
     {neighbour c pm prev | prev pm.
        prev \<in> set (in_nodes g l NEXT_LESSON) \<and> pm \<in> set (in_nodes g prev HAS_LESSON)}"
    using in_previous_matches [of _ g c l] by blast
  moreover have "\<exists>u enr rest c0. records g uid = (u, enr) # rest \<and>
         c0 \<in> set (concat (map snd enr)) \<and> sortCourse c0 = Inl f"
    if "getUserEnrolments g uid = Inl f" for uid f
  proof -
    from that obtain u enr rest where recs: "records g uid = (u, enr) # rest"
      and "sort_all enr = Inl f"
      by (auto simp: getUserEnrolments_def split: list.splits sum.splits)
    from sort_all_Inl [OF this(2)] recs show ?thesis by blast
  qed
  ultimately show ?thesis
    by (simp add: lesson_proj_def)
qed

theorem neighbour_first_match_witness:
  "next_matches g_fork (mk_node 10 ''Course'' [(''slug'', ''c1'')])
       (mk_node 30 ''Lesson'' [(''slug'', ''a'')]) =
     [\<lparr>s_slug = Some ''b'', s_title = None, s_link = Some ''/courses/c1/m1/b''\<rparr>,
      \<lparr>s_slug = Some ''c'', s_title = None, s_link = Some ''/courses/c1/m1/c''\<rparr>] \<and>
   l_next (lesson_proj g_fork (mk_node 10 ''Course'' [(''slug'', ''c1'')]) None
       (mk_node 20 ''Module'' [(''slug'', ''m1'')]) (mk_node 30 ''Lesson'' [(''slug'', ''a'')])) =
     Some \<lparr>s_slug = Some ''b'', s_title = None, s_link = Some ''/courses/c1/m1/b''\<rparr>"
proof -
  let ?c = "mk_node 10 ''Course'' [(''slug'', ''c1'')]"
  let ?m = "mk_node 20 ''Module'' [(''slug'', ''m1'')]"
  let ?l = "mk_node 30 ''Lesson'' [(''slug'', ''a'')]"
  have n: "next_matches g_fork ?c ?l =
     [\<lparr>s_slug = Some ''b'', s_title = None, s_link = Some ''/courses/c1/m1/b''\<rparr>,
      \<lparr>s_slug = Some ''c'', s_title = None, s_link = Some ''/courses/c1/m1/c''\<rparr>]"
    by code_simp
  note first = neighbour_first_match [of g_fork ?c ?l None ?m, THEN conjunct2, THEN conjunct1]
  from first n have "l_next (lesson_proj g_fork ?c None ?m ?l) =
      Some \<lparr>s_slug = Some ''b'', s_title = None, s_link = Some ''/courses/c1/m1/b''\<rparr>"
    by (elim allE [where x = "\<lparr>s_slug = Some ''b'', s_title = None, s_link = Some ''/courses/c1/m1/b''\<rparr>"]
          allE [where x = "[\<lparr>s_slug = Some ''c'', s_title = None, s_link = Some ''/courses/c1/m1/c''\<rparr>]"] impE)
  with n show ?thesis by (intro conjI)
qed

lemma sortCourse_completed: "sortCourse c = Inr c' \<Longrightarrow> c_completed c' = c_completed c"
  by (auto simp: sortCourse_def Let_def split: if_splits list.splits sum.splits)

text \<open>
  C6. The \<open>completed\<close> field and the status label of a course depend on the enrolment's
  \<open>CompletedEnrolment\<close> label alone: they are the same in any other store \<open>g'\<close>, whatever
  its completion relationships, and \<open>sortCourse\<close> keeps the field. The \<open>completed\<close> flag of
  a module or lesson is the existence of a \<open>COMPLETED_MODULE\<close> or \<open>COMPLETED_LESSON\<close>
  relationship from the enrolment. So a course with an enrolment that is not labelled
  completed is \<open>enrolled\<close> with \<open>completed = false\<close>, whichever of its lessons are flagged.
\<close>

theorem completion_flags_independent:
  "c_completed (course_proj g c e) =
     map_option (\<lambda>e'. ''CompletedEnrolment'' \<in> set (n_labels e')) e \<and>
   c_completed (course_proj g' c e) = c_completed (course_proj g c e) \<and>
   fst (snd (project_row g' (u, c, e))) = fst (snd (project_row g (u, c, e))) \<and>
   (\<forall>c'. sortCourse (course_proj g c e) = Inr c' \<longrightarrow>
      c_completed c' = c_completed (course_proj g c e)) \<and>
   (\<forall>m. m_completed (module_proj g c e m) =
      (\<exists>e'. e = Some e' \<and> (nid e', COMPLETED_MODULE, nid m) \<in> set (g_edges g))) \<and>
   (\<forall>m l. l_completed (lesson_proj g c e m l) =
      (\<exists>e'. e = Some e' \<and> (nid e', COMPLETED_LESSON, nid l) \<in> set (g_edges g))) \<and>
   (\<forall>e'. e = Some e' \<and> ''CompletedEnrolment'' \<notin> set (n_labels e') \<longrightarrow>
      fst (snd (project_row g (u, c, e))) = STATUS_ENROLLED \<and>
      c_completed (course_proj g c e) = Some False)"
proof -
  have "m_completed (module_proj g c e m) =
      (\<exists>e'. e = Some e' \<and> (nid e', COMPLETED_MODULE, nid m) \<in> set (g_edges g))" for m
    by (cases e) (simp_all add: module_proj_def exists_rel_def)
  moreover have "l_completed (lesson_proj g c e m l) =
      (\<exists>e'. e = Some e' \<and> (nid e', COMPLETED_LESSON, nid l) \<in> set (g_edges g))" for m l
    by (cases e) (simp_all add: lesson_proj_def exists_rel_def)
  moreover have "c_completed (course_proj g c e) =
     map_option (\<lambda>e'. ''CompletedEnrolment'' \<in> set (n_labels e')) e" for g
    by (simp add: course_proj_def is_completed_def [abs_def])
  moreover have "fst (snd (project_row g (u, c, e))) = status_of e" for g
    by (simp add: project_row_def)
  moreover have "status_of (Some e') = STATUS_ENROLLED"
    if "''CompletedEnrolment'' \<notin> set (n_labels e')" for e'
    using that by (simp add: status_of_def is_completed_def)
  ultimately show ?thesis
    by (auto simp: sortCourse_completed)
qed

theorem completion_flags_independent_witness:
  "fst (snd (project_row g_chain
      (mk_node 1 ''User'' [(''id'', ''u1''), (''name'', ''Ann'')],
       mk_node 10 ''Course'' [(''slug'', ''c1'')],
       Some (mk_node 40 ''Enrolment'' [])))) = STATUS_ENROLLED \<and>
   c_completed ex_course = Some False \<and>
   map (\<lambda>m. map l_completed (m_lessons m)) (c_modules ex_course) = [[True, True], [True, True]]"
proof -
  let ?u = "mk_node 1 ''User'' [(''id'', ''u1''), (''name'', ''Ann'')]"
  let ?c = "mk_node 10 ''Course'' [(''slug'', ''c1'')]"
  let ?e = "mk_node 40 ''Enrolment'' []"
  have tag: "''CompletedEnrolment'' \<notin> set (n_labels ?e)"
    by (simp add: mk_node_def)
  have all: "map (\<lambda>m. map l_completed (m_lessons m)) (c_modules ex_course) = [[True, True], [True, True]]"
    by code_simp
  from completion_flags_independent [of g_chain ?c "Some ?e" g_chain ?u] tag
  have "fst (snd (project_row g_chain (?u, ?c, Some ?e))) = STATUS_ENROLLED \<and>
      c_completed (course_proj g_chain ?c (Some ?e)) = Some False"
    by blast
  with all show ?thesis by (simp add: ex_course_def)
qed

end
